theory Spec2Isabelle
  imports Complex_Main
begin

section \<open>Cache-friendly FFT: model of the source\<close>

text \<open>
  The program works on numpy arrays.  An array is a flat buffer (a list) together with a
  view: an offset, a shape and strides, all counted in elements.  In-place routines take
  the views they are called with and the buffers those views point into, and return the
  updated buffers; every \<open>raise\<close> and failed \<open>assert\<close> is a value \<open>Inl e\<close>.
\<close>

unbundle bit_operations_syntax

subsection \<open>Errors\<close>

text \<open>
  \<open>NotPowerOfTwo n\<close> is the \<open>ValueError\<close> of \<open>lb_exact\<close> (its message names \<open>n\<close>);
  \<open>NotMatrixOfBatches\<close> and \<open>NotSquare\<close> are the two \<open>ValueError\<close>s of
  \<open>transpose_square\<close>; \<open>AssertionError\<close> is a failed \<open>assert\<close>; \<open>IndexError\<close> is an
  index outside a view's shape; \<open>ShapeError\<close> is numpy refusing a reshape, an unpacking of a
  shape or a slice assignment of the wrong length; \<open>NoneScratch\<close> is the attribute
  error of reading \<open>scratch.shape\<close> when \<open>scratch\<close> is \<open>None\<close>.
\<close>

datatype error =
    NotPowerOfTwo int
  | NotMatrixOfBatches
  | NotSquare
  | AssertionError
  | IndexError
  | ShapeError
  | NoneScratch

subsection \<open>\<open>util.lb_exact\<close>\<close>

text \<open>
  Python's \<open>int.bit_length\<close> counts the binary digits of the absolute value; \<open>1 << lb\<close>
  is \<open>push_bit lb 1\<close>.  The exponent returned is never negative, so it is a \<open>nat\<close>.
\<close>

fun bit_length_nat :: "nat \<Rightarrow> nat" where
  "bit_length_nat n = (if n = 0 then 0 else Suc (bit_length_nat (n div 2)))"

declare bit_length_nat.simps [simp del]

definition bit_length :: "int \<Rightarrow> nat" where
  "bit_length n = bit_length_nat (nat \<bar>n\<bar>)"

definition lb_exact :: "int \<Rightarrow> error + nat" where
  "lb_exact n =
     (let lb = int (bit_length n) - 1 in
      if lb < 0 \<or> n \<noteq> push_bit (nat lb) 1 then Inl (NotPowerOfTwo n)
      else Inr (nat lb))"

subsection \<open>\<open>_scrach_length\<close>\<close>

text \<open>
  The \<open>while\<close> loop of \<open>_scrach_length\<close> does not end on \<open>0\<close>; it is a partial function
  whose value \<open>None\<close> stands for not returning.
\<close>

partial_function (option) halve_while_even :: "nat \<Rightarrow> nat option" where
  "halve_while_even lb_n =
     (if lb_n AND 1 = 0 then halve_while_even (drop_bit 1 lb_n) else Some lb_n)"

declare halve_while_even.simps [code]

definition scrach_length :: "nat \<Rightarrow> nat option" where
  "scrach_length lb_n =
     (if lb_n = 0 then Some 0
      else case halve_while_even lb_n of
             None \<Rightarrow> None
           | Some lb_odd \<Rightarrow>
               (let lb_res = drop_bit 1 (lb_odd - 1) in
                if lb_res = 0 then Some 0 else Some (push_bit lb_res 1)))"


subsection \<open>Views\<close>

text \<open>
  \<open>c_strides\<close> are the strides of a freshly allocated C-ordered array, \<open>c_contiguous\<close> is
  numpy's \<open>C_CONTIGUOUS\<close> flag (axes of length one are ignored, an empty array is
  contiguous).  \<open>set_shape\<close> is the assignment \<open>x.shape = \<dots>\<close>; it is modelled for
  C-contiguous views, the only ones the program reshapes.  \<open>upto_ax k h v\<close> and
  \<open>from_ax k h v\<close> are the slices \<open>[:h]\<close> and \<open>[h:]\<close> along axis \<open>k\<close>; \<open>sub_view v i\<close> is
  \<open>v[i]\<close> and \<open>last_ax0 v\<close> is \<open>v[..., 0]\<close>.  \<open>getitem\<close> and \<open>setitem\<close> read and write one
  element of a one-dimensional view.
\<close>

record view =
  offset :: nat
  shape :: "nat list"
  strides :: "nat list"

definition c_strides :: "nat list \<Rightarrow> nat list" where
  "c_strides shp = map (\<lambda>k. prod_list (drop (Suc k) shp)) [0..<length shp]"

fun contig_from :: "nat \<Rightarrow> nat list \<Rightarrow> nat list \<Rightarrow> bool" where
  "contig_from sd [] _ = True"
| "contig_from sd (d # ds) [] = False"
| "contig_from sd (d # ds) (st # sts) =
     ((d = 1 \<or> st = sd) \<and> contig_from (sd * d) ds sts)"

definition c_contiguous :: "view \<Rightarrow> bool" where
  "c_contiguous v =
     (0 \<in> set (shape v) \<or> contig_from 1 (rev (shape v)) (rev (strides v)))"

definition full_view :: "nat list \<Rightarrow> view" where
  "full_view shp = \<lparr>offset = 0, shape = shp, strides = c_strides shp\<rparr>"

definition set_shape :: "nat list \<Rightarrow> view \<Rightarrow> error + view" where
  "set_shape shp v =
     (if prod_list shp \<noteq> prod_list (shape v) \<or> \<not> c_contiguous v then Inl ShapeError
      else Inr \<lparr>offset = offset v, shape = shp, strides = c_strides shp\<rparr>)"

definition upto_ax :: "nat \<Rightarrow> nat \<Rightarrow> view \<Rightarrow> view" where
  "upto_ax k h v = v\<lparr>shape := (shape v)[k := min h (shape v ! k)]\<rparr>"

definition from_ax :: "nat \<Rightarrow> nat \<Rightarrow> view \<Rightarrow> view" where
  "from_ax k h v =
     v\<lparr>offset := offset v + min h (shape v ! k) * (strides v ! k),
       shape := (shape v)[k := shape v ! k - h]\<rparr>"

definition sub_view :: "view \<Rightarrow> nat \<Rightarrow> view" where
  "sub_view v i =
     \<lparr>offset = offset v + i * hd (strides v), shape = tl (shape v), strides = tl (strides v)\<rparr>"

definition last_ax0 :: "view \<Rightarrow> view" where
  "last_ax0 v = \<lparr>offset = offset v, shape = butlast (shape v), strides = butlast (strides v)\<rparr>"

definition getitem :: "view \<Rightarrow> nat \<Rightarrow> 'a list \<Rightarrow> error + 'a" where
  "getitem v i buf =
     (if length (shape v) = 1 \<and> i < hd (shape v) then Inr (buf ! (offset v + i * hd (strides v)))
      else Inl IndexError)"

definition setitem :: "view \<Rightarrow> nat \<Rightarrow> 'a \<Rightarrow> 'a list \<Rightarrow> error + 'a list" where
  "setitem v i c buf =
     (if length (shape v) = 1 \<and> i < hd (shape v) then Inr (buf[offset v + i * hd (strides v) := c])
      else Inl IndexError)"

text \<open>Sequencing of fallible steps, and the \<open>for\<close> loop over a list of indices.\<close>

fun for_each :: "'i list \<Rightarrow> ('i \<Rightarrow> 's \<Rightarrow> error + 's) \<Rightarrow> 's \<Rightarrow> error + 's" where
  "for_each [] body s = Inr s"
| "for_each (i # is) body s =
     (case body i s of Inl e \<Rightarrow> Inl e | Inr s' \<Rightarrow> for_each is body s')"


definition bind :: "error + 'a \<Rightarrow> ('a \<Rightarrow> error + 'b) \<Rightarrow> error + 'b" where
  "bind m f = (case m of Inl e \<Rightarrow> Inl e | Inr a \<Rightarrow> f a)"

lemma bind_cong [fundef_cong]:
  "m = m' \<Longrightarrow> (\<And>a. m' = Inr a \<Longrightarrow> f a = f' a) \<Longrightarrow> bind m f = bind m' f'"
  by (auto simp: bind_def split: sum.splits)

lemma for_each_cong [fundef_cong]:
  "xs = ys \<Longrightarrow> s = s' \<Longrightarrow> (\<And>i t. i \<in> set ys \<Longrightarrow> f i t = g i t)
   \<Longrightarrow> for_each xs f s = for_each ys g s'"
  by (induction ys arbitrary: xs s s') (auto split: sum.splits)

definition on_buf ::
  "('a list \<Rightarrow> error + 'a list) \<Rightarrow> 'a list \<times> 'a list option \<Rightarrow> error + 'a list \<times> 'a list option" where
  "on_buf f st = (case st of (buf, scratch) \<Rightarrow> bind (f buf) (\<lambda>buf'. Inr (buf', scratch)))"

text \<open>
  \<open>view_list\<close> reads a whole one-dimensional view, \<open>assign_view\<close> is the slice assignment
  \<open>v[:] = src\<close>.
\<close>

definition view_list :: "view \<Rightarrow> 'a list \<Rightarrow> 'a list" where
  "view_list v buf = map (\<lambda>i. buf ! (offset v + i * hd (strides v))) [0..<hd (shape v)]"

definition assign_view :: "view \<Rightarrow> 'a list \<Rightarrow> 'a list \<Rightarrow> error + 'a list" where
  "assign_view v src buf =
     (if length (shape v) \<noteq> 1 \<or> hd (shape v) \<noteq> length src then Inl ShapeError
      else Inr (fold (\<lambda>i b. b[offset v + i * hd (strides v) := src ! i]) [0..<length src] buf))"

subsection \<open>\<open>_interleave\<close> and \<open>_deinterleave\<close>\<close>

text \<open>
  The state is the pair of the buffer \<open>x\<close> points into and the scratch array (\<open>None\<close> when
  the caller passed \<open>None\<close>).
\<close>

definition interleave ::
  "view \<Rightarrow> 'a list \<times> 'a list option \<Rightarrow> error + 'a list \<times> 'a list option" where
  "interleave x st =
     (case st of (buf, scratch) \<Rightarrow>
      (case scratch of None \<Rightarrow> Inl NoneScratch | Some sbuf \<Rightarrow>
      if length (shape x) \<noteq> 1 then Inl AssertionError else
      let n = hd (shape x) in
      if n mod 2 \<noteq> 0 then Inl AssertionError else
      let half_n = n div 2 in
      if \<not> half_n \<le> length sbuf then Inl AssertionError else
      let scratch = upto_ax 0 half_n (full_view [length sbuf]) in
      bind (assign_view scratch (view_list (upto_ax 0 half_n x) buf) sbuf) (\<lambda>sbuf.
      bind (for_each [0..<half_n] (\<lambda>i buf.
              bind (getitem scratch i sbuf) (\<lambda>c.
              bind (setitem x (2 * i) c buf) (\<lambda>buf.
              bind (getitem x (half_n + i) buf) (\<lambda>c.
              setitem x (2 * i + 1) c buf)))) buf) (\<lambda>buf.
      Inr (buf, Some sbuf)))))"

definition deinterleave ::
  "view \<Rightarrow> 'a list \<times> 'a list option \<Rightarrow> error + 'a list \<times> 'a list option" where
  "deinterleave x st =
     (case st of (buf, scratch) \<Rightarrow>
      (case scratch of None \<Rightarrow> Inl NoneScratch | Some sbuf \<Rightarrow>
      if length (shape x) \<noteq> 1 then Inl AssertionError else
      let n = hd (shape x) in
      if n mod 2 \<noteq> 0 then Inl AssertionError else
      let half_n = n div 2 in
      if \<not> half_n \<le> length sbuf then Inl AssertionError else
      let scratch = upto_ax 0 half_n (full_view [length sbuf]) in
      bind (for_each [0..<half_n] (\<lambda>i (buf, sbuf).
              bind (getitem x (2 * i) buf) (\<lambda>c.
              bind (setitem x i c buf) (\<lambda>buf.
              bind (getitem x (2 * i + 1) buf) (\<lambda>c.
              bind (setitem scratch i c sbuf) (\<lambda>sbuf.
              Inr (buf, sbuf)))))) (buf, sbuf)) (\<lambda>(buf, sbuf).
      bind (assign_view (from_ax 0 half_n x) (view_list scratch sbuf) buf) (\<lambda>buf.
      Inr (buf, Some sbuf)))))"


subsection \<open>\<open>transpose._swap_transpose_square\<close> and \<open>transpose.transpose_square\<close>\<close>

function swap_transpose_square :: "view \<Rightarrow> view \<Rightarrow> 'a list \<Rightarrow> error + 'a list" where
  "swap_transpose_square a b buf =
     (if \<not> (length (shape a) = length (shape b) \<and> length (shape b) = 3) then Inl AssertionError else
      let n = shape a ! 0; m = shape a ! 2 in
      if \<not> (n = shape a ! 1 \<and> shape a ! 1 = shape b ! 0 \<and> shape b ! 0 = shape b ! 1)
      then Inl AssertionError else
      if m \<noteq> shape b ! 2 then Inl AssertionError else
      if n = 0 then Inr buf else
      if n = 1 then
        (let a = sub_view (sub_view a 0) 0; b = sub_view (sub_view b 0) 0 in
         for_each [0..<m] (\<lambda>i buf.
           bind (getitem b i buf) (\<lambda>bi.
           bind (getitem a i buf) (\<lambda>ai.
           bind (setitem a i bi buf) (\<lambda>buf.
           setitem b i ai buf)))) buf)
      else
        (let half_n = drop_bit 1 n in
         bind (swap_transpose_square (upto_ax 1 half_n (upto_ax 0 half_n a))
                                     (upto_ax 1 half_n (upto_ax 0 half_n b)) buf) (\<lambda>buf.
         bind (swap_transpose_square (from_ax 1 half_n (upto_ax 0 half_n a))
                                     (upto_ax 1 half_n (from_ax 0 half_n b)) buf) (\<lambda>buf.
         bind (swap_transpose_square (upto_ax 1 half_n (from_ax 0 half_n a))
                                     (from_ax 1 half_n (upto_ax 0 half_n b)) buf) (\<lambda>buf.
         swap_transpose_square (from_ax 1 half_n (from_ax 0 half_n a))
                               (from_ax 1 half_n (from_ax 0 half_n b)) buf)))))"
  by pat_completeness auto
termination
  by (relation "measure (\<lambda>(a, b, buf). shape a ! 0)")
     (auto simp: upto_ax_def from_ax_def drop_bit_eq_div nth_list_update)

declare swap_transpose_square.simps [simp del]

function transpose_square :: "view \<Rightarrow> 'a list \<Rightarrow> error + 'a list" where
  "transpose_square a buf =
     (if length (shape a) \<noteq> 3 then Inl NotMatrixOfBatches else
      let n = shape a ! 0; n' = shape a ! 1 in
      if n \<noteq> n' then Inl NotSquare else
      bind (lb_exact (int n)) (\<lambda>_.
      if n \<le> 1 then Inr buf else
      (let half_n = drop_bit 1 n in
       bind (transpose_square (upto_ax 1 half_n (upto_ax 0 half_n a)) buf) (\<lambda>buf.
       bind (swap_transpose_square (from_ax 1 half_n (upto_ax 0 half_n a))
                                   (upto_ax 1 half_n (from_ax 0 half_n a)) buf) (\<lambda>buf.
       transpose_square (from_ax 1 half_n (from_ax 0 half_n a)) buf)))))"
  by pat_completeness auto
termination
  by (relation "measure (\<lambda>(a, buf). shape a ! 0)")
     (auto simp: upto_ax_def from_ax_def drop_bit_eq_div nth_list_update)

declare transpose_square.simps [simp del]


subsection \<open>Facts about \<open>lb_exact\<close>\<close>

lemma bit_length_nat_0 [simp]: "bit_length_nat 0 = 0"
  by (subst bit_length_nat.simps) simp

lemma bit_length_nat_1 [simp]: "bit_length_nat (Suc 0) = Suc 0"
  by (subst bit_length_nat.simps) simp

lemma bit_length_nat_bounds:
  "0 < n \<Longrightarrow> 2 ^ (bit_length_nat n - 1) \<le> n \<and> n < 2 ^ bit_length_nat n"
proof (induction n rule: bit_length_nat.induct)
  case (1 n)
  show ?case
  proof (cases "n div 2 = 0")
    case True
    with "1.prems" have "n = 1" by linarith
    then show ?thesis by simp
  next
    case False
    with "1.IH" "1.prems" have ih: "2 ^ (bit_length_nat (n div 2) - 1) \<le> n div 2"
        "n div 2 < 2 ^ bit_length_nat (n div 2)" by auto
    from False have pos: "0 < bit_length_nat (n div 2)"
      by (subst bit_length_nat.simps) simp
    have eq: "bit_length_nat n = Suc (bit_length_nat (n div 2))"
      using "1.prems" by (subst bit_length_nat.simps) simp
    have "(2::nat) ^ (bit_length_nat n - 1) = 2 * 2 ^ (bit_length_nat (n div 2) - 1)"
      using pos eq by (cases "bit_length_nat (n div 2)") auto
    moreover have "2 * (n div 2) \<le> n" "n < 2 * (n div 2) + 2" by presburger+
    moreover have "(2::nat) ^ bit_length_nat n = 2 * 2 ^ bit_length_nat (n div 2)"
      using eq by simp
    ultimately show ?thesis using ih by linarith
  qed
qed

lemma bit_length_nat_pow2: "bit_length_nat (2 ^ k) = Suc k"
proof (induction k)
  case 0
  show ?case by simp
next
  case (Suc k)
  show ?case by (subst bit_length_nat.simps) (simp add: Suc)
qed

lemma lb_exact_pow2: "lb_exact (2 ^ k) = Inr k"
proof -
  have "bit_length (2 ^ k) = Suc k"
    using bit_length_nat_pow2 [of k] by (simp add: bit_length_def nat_power_eq)
  then show ?thesis by (simp add: lb_exact_def push_bit_eq_mult)
qed

lemma lb_exact_Inr_iff: "lb_exact n = Inr k \<longleftrightarrow> n = 2 ^ k"
proof
  assume h: "lb_exact n = Inr k"
  define lb where "lb = int (bit_length n) - 1"
  have "lb_exact n = (if lb < 0 \<or> n \<noteq> push_bit (nat lb) 1 then Inl (NotPowerOfTwo n)
                      else Inr (nat lb))"
    by (simp add: lb_exact_def lb_def Let_def)
  with h have "n = push_bit (nat lb) 1" and "k = nat lb"
    by (auto split: if_splits)
  then show "n = 2 ^ k" by (simp add: push_bit_eq_mult)
next
  assume "n = 2 ^ k"
  then show "lb_exact n = Inr k" by (simp add: lb_exact_pow2)
qed

lemma lb_exact_cases: "lb_exact n = Inl (NotPowerOfTwo n) \<or> (\<exists>k. lb_exact n = Inr k)"
  unfolding lb_exact_def Let_def by simp

lemma lb_exact_Inl_iff: "lb_exact n = Inl e \<longleftrightarrow> e = NotPowerOfTwo n \<and> (\<forall>k. n \<noteq> 2 ^ k)"
proof (cases "\<exists>k. n = 2 ^ k")
  case True
  then obtain k where "n = 2 ^ k" ..
  then have "lb_exact n = Inr k" by (simp add: lb_exact_pow2)
  with True show ?thesis by simp
next
  case False
  then have "\<And>k. lb_exact n \<noteq> Inr k" by (simp add: lb_exact_Inr_iff)
  with lb_exact_cases [of n] have "lb_exact n = Inl (NotPowerOfTwo n)" by blast
  with False show ?thesis by auto
qed

lemma lb_exact_nat: "lb_exact (int n) = Inr k \<longleftrightarrow> n = 2 ^ k"
  by (simp add: lb_exact_Inr_iff)

subsection \<open>The in-place FFT\<close>

text \<open>
  \<open>twiddle e vec_len\<close> is \<open>np.exp(-2j * np.pi * e / vec_len)\<close> in exact complex arithmetic;
  \<open>mul_twiddles\<close> is the loop \<open>for j in range(n): row[j] *= \<dots>\<close> and \<open>butterfly2\<close> the
  length-two case of \<open>_fft_inplace\<close>.
\<close>

type_synonym fft_state = "complex list \<times> complex list option"

definition twiddle :: "nat \<Rightarrow> nat \<Rightarrow> complex" where
  "twiddle e vec_len = exp (- (2 * \<i>) * of_real pi * of_nat e / of_nat vec_len)"

definition mul_twiddles :: "view \<Rightarrow> nat \<Rightarrow> nat \<Rightarrow> nat \<Rightarrow> fft_state \<Rightarrow> error + fft_state" where
  "mul_twiddles row n c vec_len st =
     for_each [0..<n] (\<lambda>j (buf, scratch).
       bind (getitem row j buf) (\<lambda>v.
       bind (setitem row j (v * twiddle (c * j) vec_len) buf) (\<lambda>buf.
       Inr (buf, scratch)))) st"

definition butterfly2 :: "view \<Rightarrow> fft_state \<Rightarrow> error + fft_state" where
  "butterfly2 x st =
     (case st of (buf, scratch) \<Rightarrow>
      bind (getitem x 0 buf) (\<lambda>x0.
      bind (getitem x 1 buf) (\<lambda>x1.
      bind (setitem x 0 (x0 + x1) buf) (\<lambda>buf.
      bind (setitem x 1 (x0 - x1) buf) (\<lambda>buf.
      Inr (buf, scratch))))))"

lemma set_shape_size: "set_shape shp v = Inr v' \<Longrightarrow> shape v' = shp \<and> prod_list shp = prod_list (shape v)"
  by (auto simp: set_shape_def split: if_splits)

lemma arith_sq: "2 < (n::nat) \<Longrightarrow> Suc (2 * n) < 2 * (n * n)"
proof -
  assume "2 < n"
  then have "3 * n \<le> n * n" by simp
  with \<open>2 < n\<close> show ?thesis by linarith
qed

lemma arith_sq2: "2 \<le> (c::nat) \<Longrightarrow> Suc (2 * (c * 2)) < 2 * (c * c * 2)"
proof -
  assume "2 \<le> c"
  then have "2 * c \<le> c * c" by simp
  with \<open>2 \<le> c\<close> show ?thesis by linarith
qed


lemma pow2_gt2: "n = (2::nat) ^ k \<Longrightarrow> n \<noteq> Suc 0 \<Longrightarrow> n \<noteq> 2 \<Longrightarrow> 2 < n"
proof -
  assume h: "n = (2::nat) ^ k" "n \<noteq> Suc 0" "n \<noteq> 2"
  then have "k \<noteq> 0" "k \<noteq> 1" by auto
  then have "2 \<le> k" by simp
  then have "(2::nat) ^ 2 \<le> 2 ^ k" by (rule power_increasing) simp
  with h show ?thesis by simp
qed

function fft_inplace :: "view \<Rightarrow> fft_state \<Rightarrow> error + fft_state"
  and fft_inplace_evenpow :: "view \<Rightarrow> fft_state \<Rightarrow> error + fft_state"
  and fft_inplace_oddpow :: "view \<Rightarrow> fft_state \<Rightarrow> error + fft_state" where
  "fft_inplace x st =
     (if \<not> c_contiguous x then Inl AssertionError else
      case shape x of
        [n] \<Rightarrow>
          if n = 1 then Inr st
          else if n = 2 then butterfly2 x st
          else bind (lb_exact (int n)) (\<lambda>lb_n.
                 if lb_n AND 1 \<noteq> 0 then fft_inplace_oddpow x st
                 else fft_inplace_evenpow x st)
      | _ \<Rightarrow> Inl ShapeError)"
| "fft_inplace_evenpow x st =
     (case shape x of [] \<Rightarrow> Inl IndexError | vec_len # _ \<Rightarrow>
      bind (lb_exact (int vec_len)) (\<lambda>lb.
      let n = push_bit (drop_bit 1 lb) 1 in
      bind (set_shape [n, n, 1] x) (\<lambda>x.
      bind (on_buf (transpose_square x) st) (\<lambda>st.
      bind (for_each [0..<hd (shape x)] (\<lambda>i st.
              let row = sub_view (last_ax0 x) i in
              bind (fft_inplace row st) (\<lambda>st.
              mul_twiddles row n i vec_len st)) st) (\<lambda>st.
      bind (on_buf (transpose_square x) st) (\<lambda>st.
      bind (for_each [0..<hd (shape x)] (\<lambda>i st.
              fft_inplace (sub_view (last_ax0 x) i) st) st) (\<lambda>st.
      on_buf (transpose_square x) st)))))))"
| "fft_inplace_oddpow x st =
     (case shape x of [] \<Rightarrow> Inl IndexError | vec_len # _ \<Rightarrow>
      bind (lb_exact (int vec_len)) (\<lambda>lb.
      let col_len = push_bit (drop_bit 1 lb) 1;
          row_len = push_bit 1 col_len in
      bind (set_shape [col_len, col_len, 2] x) (\<lambda>x.
      bind (on_buf (transpose_square x) st) (\<lambda>st.
      bind (for_each [0..<hd (shape x)] (\<lambda>i st.
              bind (set_shape [row_len] (sub_view x i)) (\<lambda>row_pair.
              bind (deinterleave row_pair st) (\<lambda>st.
              let row0 = upto_ax 0 col_len row_pair;
                  row1 = from_ax 0 col_len row_pair in
              bind (fft_inplace row0 st) (\<lambda>st.
              bind (mul_twiddles row0 col_len (2 * i) vec_len st) (\<lambda>st.
              bind (fft_inplace row1 st) (\<lambda>st.
              bind (mul_twiddles row1 col_len (2 * i + 1) vec_len st) (\<lambda>st.
              interleave row_pair st))))))) st) (\<lambda>st.
      bind (on_buf (transpose_square x) st) (\<lambda>st.
      bind (for_each [0..<hd (shape x)] (\<lambda>i st.
              bind (set_shape [row_len] (sub_view x i)) (\<lambda>row.
              fft_inplace row st)) st) (\<lambda>st.
      bind (on_buf (transpose_square x) st) (\<lambda>st.
      for_each [0..<hd (shape x)] (\<lambda>i st.
        bind (set_shape [row_len] (sub_view x i)) (\<lambda>row_pair.
        deinterleave row_pair st)) st))))))))"
  by pat_completeness auto



termination
proof (relation "measure (\<lambda>c. case c of
            Inl (x, st) \<Rightarrow> (if prod_list (shape x) \<le> 2 then 0 else 2 * prod_list (shape x) + 2)
          | Inr (Inl (x, st)) \<Rightarrow> 2 * prod_list (shape x) + 1
          | Inr (Inr (x, st)) \<Rightarrow> 2 * prod_list (shape x) + 1)", goal_cases)
  case 1
  show ?case by simp
next
  case (2 x st n ns lb_n)
  then have "n = 2 ^ lb_n" by (simp add: lb_exact_nat)
  with 2 have "2 < n" by (simp add: pow2_gt2)
  with 2 show ?case by simp
next
  case (3 x st n ns lb_n)
  then have "n = 2 ^ lb_n" by (simp add: lb_exact_nat)
  with 3 have "2 < n" by (simp add: pow2_gt2)
  with 3 show ?case by simp
next
  case (4 x st vec_len ns lb n x' st' i row)
  from set_shape_size [OF 4(4)] have "shape x' = [n, n, 1]" "n * n = prod_list (shape x)"
    by simp_all
  then show ?case using 4(7) arith_sq [of n]
    by (simp add: sub_view_def last_ax0_def)
next
  case (5 x st vec_len ns lb n x' st1 st2 st3 i t)
  from set_shape_size [OF 5(4)] have "shape x' = [n, n, 1]" "n * n = prod_list (shape x)"
    by simp_all
  then show ?case using arith_sq [of n]
    by (simp add: sub_view_def last_ax0_def)
next
  case (6 x st vec_len ns lb col_len row_len x' st1 i t row_pair st2 row0 row1)
  from set_shape_size [OF 6(5)] have "col_len * col_len * 2 = prod_list (shape x)"
    by simp
  moreover from set_shape_size [OF 6(8)] have "shape row_pair = [row_len]" by simp
  moreover have "Suc (2 * col_len) < 2 * (col_len * col_len * 2)" if "2 < col_len"
    using arith_sq [OF that] by simp
  moreover have "min col_len row_len = col_len"
    using 6(3,4) by (simp add: push_bit_eq_mult)
  ultimately show ?case using 6(10)
    by (auto simp: upto_ax_def)
next
  case (7 x st vec_len ns lb col_len row_len x' st1 i t row_pair st2 row0 row1 st3 st4)
  from set_shape_size [OF 7(5)] have "col_len * col_len * 2 = prod_list (shape x)"
    by simp
  moreover from set_shape_size [OF 7(8)] have "shape row_pair = [row_len]" by simp
  moreover have "Suc (2 * col_len) < 2 * (col_len * col_len * 2)" if "2 < col_len"
    using arith_sq [OF that] by simp
  moreover have "row_len - col_len = col_len"
    using 7(3,4) by (simp add: push_bit_eq_mult)
  ultimately show ?case using 7(11)
    by (auto simp: from_ax_def)
next
  case (8 x st vec_len ns lb col_len row_len x' st1 st2 st3 i t row)
  from set_shape_size [OF 8(5)] have "col_len * col_len * 2 = prod_list (shape x)"
    by simp
  moreover from set_shape_size [OF 8(10)] have "shape row = [row_len]" by simp
  moreover have "row_len = col_len * 2"
    using 8(3,4) by (simp add: push_bit_eq_mult)
  moreover have "Suc (2 * (col_len * 2)) < 2 * (col_len * col_len * 2)" if "2 \<le> col_len"
    using arith_sq2 [OF that] by simp
  ultimately show ?case
    by (auto simp: not_le)
qed


declare fft_inplace.simps [simp del] fft_inplace_evenpow.simps [simp del]
  fft_inplace_oddpow.simps [simp del]

subsection \<open>The public entry point \<open>fft\<close>\<close>

text \<open>
  The heap is the list of the arrays allocated so far and a reference is an index into it.
  \<open>np.empty_like\<close> returns uninitialised memory: \<open>junk\<close> gives its contents.  The in-place
  core is handed references to \<open>res\<close> and \<open>scratch\<close> only, so it runs on these two arrays.
  \<open>None\<close> stands for a call that does not return.
\<close>

definition fft ::
  "(nat \<Rightarrow> complex) \<Rightarrow> complex list list \<Rightarrow> nat \<Rightarrow> ((error + nat) \<times> complex list list) option" where
  "fft junk heap x =
     (let n = length (heap ! x) in
      case lb_exact (int n) of
        Inl e \<Rightarrow> Some (Inl e, heap)
      | Inr lb_n \<Rightarrow>
          (case scrach_length lb_n of
             None \<Rightarrow> None
           | Some scratch_len \<Rightarrow>
               (let (scratch, heap1) =
                      (if scratch_len = 0 then (None, heap)
                       else (Some (length heap), heap @ [map junk [0..<scratch_len]]));
                    res = length heap1;
                    heap2 = heap1 @ [heap1 ! x]
                in case fft_inplace (full_view [n]) (heap2 ! res, map_option (nth heap2) scratch) of
                     Inl e \<Rightarrow> Some (Inl e, heap2)
                   | Inr (buf, sbuf) \<Rightarrow>
                       Some (Inr res,
                             (case (scratch, sbuf) of
                                (Some s, Some sb) \<Rightarrow> heap2[s := sb, res := buf]
                              | _ \<Rightarrow> heap2[res := buf])))))"

section \<open>Scratch sizing\<close>

lemma halve_while_even_odd_part:
  "odd m \<Longrightarrow> halve_while_even (m * 2 ^ j) = Some m"
proof (induction j)
  case 0
  then have "m AND 1 \<noteq> 0" by (simp add: and_one_eq odd_iff_mod_2_eq_one)
  then show ?case by (subst halve_while_even.simps) simp
next
  case (Suc j)
  have "(m * 2 ^ Suc j) AND 1 = 0" by (simp add: and_one_eq)
  moreover have "drop_bit 1 (m * 2 ^ Suc j) = m * 2 ^ j" by (simp add: drop_bit_eq_div)
  ultimately show ?case using Suc by (subst halve_while_even.simps) simp
qed

lemma odd_part_exists: "0 < (k::nat) \<Longrightarrow> \<exists>m j. odd m \<and> k = m * 2 ^ j"
proof (induction k rule: less_induct)
  case (less k)
  show ?case
  proof (cases "even k")
    case True
    then obtain k' where k': "k = 2 * k'" by (elim evenE)
    with less.prems have "0 < k'" "k' < k" by simp_all
    with less.IH obtain m j where "odd m" "k' = m * 2 ^ j" by blast
    with k' have "odd m \<and> k = m * 2 ^ Suc j" by simp
    then show ?thesis by blast
  next
    case False
    then have "odd k \<and> k = k * 2 ^ 0" by simp
    then show ?thesis by blast
  qed
qed

lemma scrach_length_odd_part:
  "odd m \<Longrightarrow> scrach_length (m * 2 ^ j) = Some (if m = 1 then 0 else 2 ^ ((m - 1) div 2))"
proof -
  assume m: "odd m"
  then have pos: "m * 2 ^ j \<noteq> 0" by (auto elim: oddE)
  have "(m - 1) div 2 = 0 \<longleftrightarrow> m = 1" using m by (auto elim!: oddE)
  then show ?thesis
    using m pos by (simp add: scrach_length_def halve_while_even_odd_part drop_bit_eq_div push_bit_eq_mult Let_def)
qed

text \<open>
  Claim C4, as the code has it.  For \<open>k = 0\<close> the sizing returns \<open>0\<close> without entering the
  loop.  For \<open>k = m * 2 ^ j\<close> with \<open>m\<close> odd, halving while even ends at \<open>m\<close>, and the result
  is \<open>0\<close> exactly when \<open>m = 1\<close>, that is when \<open>k\<close> is a power of two (lengths 2, 4, 16,
  256, \<dots>); otherwise it is \<open>2 ^ ((m - 1) div 2)\<close>.
\<close>

theorem scrach_length_spec:
  "scrach_length 0 = Some 0 \<and>
   (\<forall>m j. odd m \<longrightarrow>
      halve_while_even (m * 2 ^ j) = Some m \<and>
      scrach_length (m * 2 ^ j) = Some (if m = 1 then 0 else 2 ^ ((m - 1) div 2)))"
  by (simp add: halve_while_even_odd_part scrach_length_odd_part) (simp add: scrach_length_def)

theorem scrach_length_spec_witness:
  "odd (3::nat) \<and> halve_while_even (3 * 2 ^ 2) = Some 3 \<and> scrach_length (3 * 2 ^ 2) = Some 2"
proof -
  have h: "odd (3::nat)" by simp
  with scrach_length_spec
  have "halve_while_even (3 * 2 ^ 2) = Some 3 \<and>
        scrach_length (3 * 2 ^ 2) = Some (if (3::nat) = 1 then 0 else 2 ^ ((3 - 1) div 2))"
    by blast
  with h show ?thesis by simp
qed

text \<open>
  Claim C4 as stated says the result is \<open>0\<close> only for lengths 2 and 4; it is also \<open>0\<close> for
  length 16 (\<open>k = 4\<close>).
\<close>

theorem scrach_length_zero_at_16:
  "scrach_length 4 = Some 0 \<and> (2::nat) ^ 4 \<noteq> 2 \<and> (2::nat) ^ 4 \<noteq> 4"
  by (simp add: scrach_length_def halve_while_even.simps)

lemma scrach_length_total: "\<exists>n. scrach_length k = Some n"
proof (cases "k = 0")
  case True
  then show ?thesis by (simp add: scrach_length_def)
next
  case False
  then obtain m j where "odd m" "k = m * 2 ^ j" using odd_part_exists [of k] by auto
  then show ?thesis by (simp add: scrach_length_odd_part)
qed

lemma lb_exact_nonpositive:
  "n \<le> 0 \<Longrightarrow> lb_exact n = Inl (NotPowerOfTwo n)"
proof -
  assume "n \<le> 0"
  then have "\<forall>k. n \<noteq> 2 ^ k"
    by (metis not_le zero_less_numeral zero_less_power)
  then show ?thesis by (simp add: lb_exact_Inl_iff)
qed

section \<open>Rejected lengths\<close>

lemma fft_rejects:
  "\<forall>k. int (length (heap ! x)) \<noteq> 2 ^ k \<Longrightarrow>
   fft junk heap x = Some (Inl (NotPowerOfTwo (int (length (heap ! x)))), heap)"
proof -
  assume "\<forall>k. int (length (heap ! x)) \<noteq> 2 ^ k"
  then have "lb_exact (int (length (heap ! x))) = Inl (NotPowerOfTwo (int (length (heap ! x))))"
    by (simp add: lb_exact_Inl_iff)
  then show ?thesis by (simp add: fft_def)
qed

lemma three_not_pow2: "(3::nat) \<noteq> 2 ^ k"
proof
  assume h: "(3::nat) = 2 ^ k"
  then have "k \<noteq> 0" by (intro notI) simp
  then have "even ((2::nat) ^ k)" by simp
  with h show False by presburger
qed

text \<open>
  Claim C2: when the length of the input is not a power of two (zero included), \<open>fft\<close>
  raises the error of \<open>lb_exact\<close> and the heap is the one it was called with: nothing was
  allocated, copied or written.
\<close>

theorem fft_invalid_length:
  "\<forall>k. length (heap ! x) \<noteq> 2 ^ k \<Longrightarrow>
   fft junk heap x = Some (Inl (NotPowerOfTwo (int (length (heap ! x)))), heap)"
  by (rule fft_rejects) simp

theorem fft_invalid_length_witness:
  "(\<forall>k. length ([[1, 2, 3]] ! 0 :: complex list) \<noteq> 2 ^ k) \<and>
   fft (\<lambda>_. 0) [[1, 2, 3]] 0 = Some (Inl (NotPowerOfTwo 3), [[1, 2, 3]])"
proof -
  have len: "length ([[1, 2, 3]] ! 0 :: complex list) = 3" by simp
  have h: "\<forall>k. length ([[1, 2, 3]] ! 0 :: complex list) \<noteq> 2 ^ k"
    unfolding len by (rule allI) (rule three_not_pow2)
  from fft_invalid_length [OF h, of "\<lambda>_. 0"] h show ?thesis by simp
qed

text \<open>
  Claim C10: \<open>lb_exact\<close> raises the same error for every \<open>n \<le> 0\<close> as for the positive
  numbers that are not powers of two; for \<open>n = 0\<close> the computed exponent is negative; and
  \<open>fft\<close> on an empty array raises that error with the heap untouched.
\<close>

theorem lb_exact_nonpositive_fft_empty:
  "(n \<le> 0 \<or> (\<forall>k. n \<noteq> 2 ^ k) \<longrightarrow> lb_exact n = Inl (NotPowerOfTwo n)) \<and>
   int (bit_length 0) - 1 < 0 \<and>
   (heap ! x = [] \<longrightarrow> fft junk heap x = Some (Inl (NotPowerOfTwo 0), heap))"
proof (intro conjI impI)
  assume "n \<le> 0 \<or> (\<forall>k. n \<noteq> 2 ^ k)"
  then show "lb_exact n = Inl (NotPowerOfTwo n)"
    using lb_exact_nonpositive [of n] by (auto simp: lb_exact_Inl_iff)
next
  show "int (bit_length 0) - 1 < 0" by (simp add: bit_length_def)
next
  assume "heap ! x = []"
  then show "fft junk heap x = Some (Inl (NotPowerOfTwo 0), heap)"
    using fft_rejects [of heap x junk] by simp
qed

theorem lb_exact_nonpositive_fft_empty_witness:
  "(- 4 :: int) \<le> 0 \<and> lb_exact (- 4) = Inl (NotPowerOfTwo (- 4)) \<and>
   [[]] ! 0 = ([] :: complex list) \<and>
   fft (\<lambda>_. 0) [[]] 0 = Some (Inl (NotPowerOfTwo 0), [[]])"
  using lb_exact_nonpositive_fft_empty [of "- 4" "[[]]" 0 "\<lambda>_. 0"] by simp

section \<open>Loops and blocks of a buffer\<close>

lemma bind_Inr [simp]: "bind (Inr a) f = f a"
  by (simp add: bind_def)

lemma bind_Inl [simp]: "bind (Inl e) f = Inl e"
  by (simp add: bind_def)

lemma for_each_append:
  "for_each (xs @ ys) body s = bind (for_each xs body s) (for_each ys body)"
  by (induction xs arbitrary: s) (auto split: sum.splits)

lemma for_each_upt_Suc:
  "for_each [0..<Suc n] body s = bind (for_each [0..<n] body s) (body n)"
  by (simp add: for_each_append bind_def split: sum.splits)

lemma for_each_invariant:
  assumes "P 0 s"
    and "\<And>i t. i < n \<Longrightarrow> P i t \<Longrightarrow> \<exists>t'. body i t = Inr t' \<and> P (Suc i) t'"
  shows "\<exists>t'. for_each [0..<n] body s = Inr t' \<and> P n t'"
  using assms(2)
proof (induction n)
  case 0
  with assms(1) show ?case by simp
next
  case (Suc n)
  then obtain t where t: "for_each [0..<n] body s = Inr t" "P n t" by force
  from Suc.prems [of n t] t(2) obtain t' where "body n t = Inr t'" "P (Suc n) t'" by auto
  with t show ?case by (simp add: for_each_upt_Suc del: upt_Suc)
qed

text \<open>
  \<open>slice buf off n\<close> is the block of \<open>n\<close> elements of \<open>buf\<close> from \<open>off\<close> on, and
  \<open>patch buf off xs\<close> is \<open>buf\<close> with that block replaced by \<open>xs\<close>.
\<close>

definition slice :: "'a list \<Rightarrow> nat \<Rightarrow> nat \<Rightarrow> 'a list" where
  "slice buf off n = take n (drop off buf)"

definition patch :: "'a list \<Rightarrow> nat \<Rightarrow> 'a list \<Rightarrow> 'a list" where
  "patch buf off xs = take off buf @ xs @ drop (off + length xs) buf"

lemma length_slice [simp]: "off + n \<le> length buf \<Longrightarrow> length (slice buf off n) = n"
  by (simp add: slice_def)

lemma nth_slice [simp]: "i < n \<Longrightarrow> off + n \<le> length buf \<Longrightarrow> slice buf off n ! i = buf ! (off + i)"
  by (simp add: slice_def)

lemma length_patch [simp]:
  "off + length xs \<le> length buf \<Longrightarrow> length (patch buf off xs) = length buf"
  by (simp add: patch_def)

lemma nth_patch:
  "off + length xs \<le> length buf \<Longrightarrow> q < length buf \<Longrightarrow>
   patch buf off xs ! q = (if off \<le> q \<and> q < off + length xs then xs ! (q - off) else buf ! q)"
  by (auto simp: patch_def nth_append)

lemma eq_patchI:
  assumes "length b' = length b" "off + length xs \<le> length b"
    and "\<And>i. i < length xs \<Longrightarrow> b' ! (off + i) = xs ! i"
    and "\<And>q. q < length b \<Longrightarrow> q < off \<or> off + length xs \<le> q \<Longrightarrow> b' ! q = b ! q"
  shows "b' = patch b off xs"
proof (rule nth_equalityI)
  show "length b' = length (patch b off xs)" using assms(1,2) by simp
next
  fix q assume q: "q < length b'"
  show "b' ! q = patch b off xs ! q"
  proof (cases "off \<le> q \<and> q < off + length xs")
    case True
    then have "q - off < length xs" by linarith
    then have "b' ! (off + (q - off)) = xs ! (q - off)" by (rule assms(3))
    with True q assms(1,2) show ?thesis by (simp add: nth_patch)
  next
    case False
    with q assms(1,2) assms(4) [of q] show ?thesis by (auto simp: nth_patch)
  qed
qed

lemma fold_update_range:
  "off + m \<le> length b \<Longrightarrow>
   fold (\<lambda>i b. b[off + i := g i]) [0..<m] b = patch b off (map g [0..<m])"
proof (induction m)
  case 0
  then show ?case by (simp add: patch_def)
next
  case (Suc m)
  let ?b = "patch b off (map g [0..<m])"
  from Suc have ih: "fold (\<lambda>i b. b[off + i := g i]) [0..<m] b = ?b" by simp
  have "?b[off + m := g m] = patch b off (map g [0..<Suc m])"
  proof (rule eq_patchI)
    show "length (?b[off + m := g m]) = length b" using Suc.prems by simp
    show "off + length (map g [0..<Suc m]) \<le> length b" using Suc.prems by simp
  next
    fix i assume "i < length (map g [0..<Suc m])"
    then have i: "i < Suc m" by simp
    show "?b[off + m := g m] ! (off + i) = map g [0..<Suc m] ! i"
    proof (cases "i = m")
      case True
      with Suc.prems show ?thesis by (simp add: nth_append)
    next
      case False
      with i have "i < m" by simp
      with Suc.prems show ?thesis by (simp add: nth_patch nth_append)
    qed
  next
    fix q assume "q < length b" "q < off \<or> off + length (map g [0..<Suc m]) \<le> q"
    with Suc.prems show "?b[off + m := g m] ! q = b ! q" by (auto simp: nth_patch)
  qed
  with ih show ?case by simp
qed

section \<open>Interleave and deinterleave\<close>

text \<open>
  The two permutations as functions on lists, following the description \<open>[a0, b0, a1, b1,
  \<dots>]\<close> of the result: the specification the code is compared with.
\<close>

definition interleaved :: "'a list \<Rightarrow> 'a list" where
  "interleaved xs =
     map (\<lambda>t. if even t then xs ! (t div 2) else xs ! (length xs div 2 + t div 2)) [0..<length xs]"

definition deinterleaved :: "'a list \<Rightarrow> 'a list" where
  "deinterleaved xs =
     map (\<lambda>t. if t < length xs div 2 then xs ! (2 * t) else xs ! (2 * (t - length xs div 2) + 1))
       [0..<length xs]"

lemma getitem_1d:
  "shape v = [n] \<Longrightarrow> i < n \<Longrightarrow> getitem v i buf = Inr (buf ! (offset v + i * hd (strides v)))"
  by (simp add: getitem_def)

lemma setitem_1d:
  "shape v = [n] \<Longrightarrow> i < n \<Longrightarrow> setitem v i c buf = Inr (buf[offset v + i * hd (strides v) := c])"
  by (simp add: setitem_def)

lemma scratch_view:
  "h \<le> len \<Longrightarrow> upto_ax 0 h (full_view [len]) = \<lparr>offset = 0, shape = [h], strides = [1]\<rparr>"
  by (simp add: upto_ax_def full_view_def c_strides_def)

lemma interleave_loop:
  fixes buf :: "'a list"
  assumes x: "shape x = [2 * h]" "strides x = [1]" "offset x + 2 * h \<le> length buf"
    and s: "shape sv = [h]" "strides sv = [1]" "offset sv = 0" "h \<le> length sbuf"
    and sb: "\<And>i. i < h \<Longrightarrow> sbuf ! i = buf ! (offset x + i)"
  shows "for_each [0..<h] (\<lambda>i buf.
              bind (getitem sv i sbuf) (\<lambda>c.
              bind (setitem x (2 * i) c buf) (\<lambda>buf.
              bind (getitem x (h + i) buf) (\<lambda>c.
              setitem x (2 * i + 1) c buf)))) buf
         = Inr (patch buf (offset x) (interleaved (slice buf (offset x) (2 * h))))"
proof -
  define off where "off = offset x"
  define P where "P i b \<longleftrightarrow> length b = length buf \<and>
     (\<forall>q<length buf. b ! q = (if off \<le> q \<and> q < off + 2 * i
         then (if even (q - off) then buf ! (off + (q - off) div 2)
               else buf ! (off + h + (q - off) div 2))
         else buf ! q))" for i and b :: "'a list"
  let ?body = "\<lambda>i buf.
              bind (getitem sv i sbuf) (\<lambda>c.
              bind (setitem x (2 * i) c buf) (\<lambda>buf.
              bind (getitem x (h + i) buf) (\<lambda>c.
              setitem x (2 * i + 1) c buf)))"
  have "\<exists>b'. for_each [0..<h] ?body buf = Inr b' \<and> P h b'"
  proof (rule for_each_invariant)
    show "P 0 buf" by (auto simp: P_def)
  next
    fix i b assume i: "i < h" and Pb: "P i b"
    from Pb have len: "length b = length buf" by (simp add: P_def)
    have rd: "b ! (off + h + i) = buf ! (off + h + i)"
    proof -
      have "off + h + i < length buf" using i x(3) by (simp add: off_def)
      moreover have "\<not> (off + h + i < off + 2 * i)" using i by simp
      ultimately show ?thesis using Pb by (simp add: P_def)
    qed
    define b' where "b' = b[off + 2 * i := buf ! (off + i), off + (2 * i + 1) := buf ! (off + h + i)]"
    have step: "?body i b = Inr b'"
      using i x s sb [OF i] rd len
      by (simp add: getitem_1d setitem_1d b'_def off_def add.assoc)
    have "P (Suc i) b'"
      unfolding P_def
    proof (intro conjI allI impI)
      show "length b' = length buf" by (simp add: b'_def len)
    next
      fix q assume q: "q < length buf"
      consider "q = off + 2 * i" | "q = off + 2 * i + 1" | "q \<noteq> off + 2 * i" "q \<noteq> off + 2 * i + 1"
        by blast
      then show "b' ! q = (if off \<le> q \<and> q < off + 2 * Suc i
         then (if even (q - off) then buf ! (off + (q - off) div 2)
               else buf ! (off + h + (q - off) div 2))
         else buf ! q)"
      proof cases
        case 1
        then show ?thesis using q len by (simp add: b'_def)
      next
        case 2
        then show ?thesis using q len by (simp add: b'_def)
      next
        case 3
        then have "b' ! q = b ! q" by (simp add: b'_def)
        moreover have "off \<le> q \<and> q < off + 2 * Suc i \<longleftrightarrow> off \<le> q \<and> q < off + 2 * i"
          using 3 by auto
        ultimately show ?thesis using Pb q by (simp add: P_def)
      qed
    qed
    with step show "\<exists>t'. ?body i b = Inr t' \<and> P (Suc i) t'" by blast
  qed
  then obtain b' where b': "for_each [0..<h] ?body buf = Inr b'" "P h b'" by blast
  have "b' = patch buf off (interleaved (slice buf off (2 * h)))"
  proof (rule eq_patchI)
    show "length b' = length buf" using b'(2) by (simp add: P_def)
    show "off + length (interleaved (slice buf off (2 * h))) \<le> length buf"
      using x(3) by (simp add: interleaved_def off_def)
  next
    fix i assume "i < length (interleaved (slice buf off (2 * h)))"
    then have i: "i < 2 * h" using x(3) by (simp add: interleaved_def off_def)
    then have "off + i < length buf" using x(3) by (simp add: off_def)
    with b'(2) i have "b' ! (off + i) = (if even i then buf ! (off + i div 2)
               else buf ! (off + h + i div 2))" by (simp add: P_def)
    moreover have "i div 2 < 2 * h" "h + i div 2 < 2 * h" using i by auto
    ultimately show "b' ! (off + i) = interleaved (slice buf off (2 * h)) ! i"
      using i x(3) by (simp add: interleaved_def off_def add.assoc)
  next
    fix q assume "q < length buf" "q < off \<or> off + length (interleaved (slice buf off (2 * h))) \<le> q"
    then show "b' ! q = buf ! q"
      using b'(2) x(3) by (auto simp: P_def interleaved_def off_def)
  qed
  with b'(1) show ?thesis by (simp add: off_def)
qed

lemma interleave_patch:
  assumes "shape x = [n]" "strides x = [1]" "even n" "offset x + n \<le> length buf"
    and "n div 2 \<le> length sbuf"
  shows "\<exists>sbuf'. interleave x (buf, Some sbuf)
           = Inr (patch buf (offset x) (interleaved (slice buf (offset x) n)), Some sbuf')
         \<and> length sbuf' = length sbuf"
proof -
  from assms(3) obtain h where n: "n = 2 * h" by (elim evenE)
  define sv where "sv = upto_ax 0 h (full_view [length sbuf])"
  from assms(5) n have sv: "sv = \<lparr>offset = 0, shape = [h], strides = [1]\<rparr>"
    by (simp add: sv_def scratch_view)
  define src where "src = view_list (upto_ax 0 h x) buf"
  have src: "src = map (\<lambda>i. buf ! (offset x + i)) [0..<h]"
    using assms(1,2) n by (simp add: src_def view_list_def upto_ax_def)
  define sbuf' where "sbuf' = patch sbuf 0 src"
  have "length src = h" by (simp add: src)
  then have "map (\<lambda>i. src ! i) [0..<h] = src" using map_nth [of src] by simp
  then have asg: "assign_view sv src sbuf = Inr sbuf'"
    using fold_update_range [of 0 h sbuf "\<lambda>i. src ! i"] assms(5) n \<open>length src = h\<close>
    by (simp add: assign_view_def sv sbuf'_def)
  have len': "length sbuf' = length sbuf" using assms(5) n by (simp add: sbuf'_def src)
  have rd: "\<And>i. i < h \<Longrightarrow> sbuf' ! i = buf ! (offset x + i)"
    using assms(5) n by (simp add: sbuf'_def src nth_patch)
  have loop: "for_each [0..<h] (\<lambda>i buf.
              bind (getitem sv i sbuf') (\<lambda>c.
              bind (setitem x (2 * i) c buf) (\<lambda>buf.
              bind (getitem x (h + i) buf) (\<lambda>c.
              setitem x (2 * i + 1) c buf)))) buf
         = Inr (patch buf (offset x) (interleaved (slice buf (offset x) (2 * h))))"
    by (rule interleave_loop) (use assms n sv len' rd in simp_all)
  have "interleave x (buf, Some sbuf)
           = Inr (patch buf (offset x) (interleaved (slice buf (offset x) n)), Some sbuf')"
    using assms n asg loop
    by (simp add: interleave_def Let_def flip: sv_def src_def)
  with len' show ?thesis by blast
qed

lemma deinterleave_loop:
  fixes buf :: "'a list"
  assumes x: "shape x = [2 * h]" "strides x = [1]" "offset x + 2 * h \<le> length buf"
    and s: "shape sv = [h]" "strides sv = [1]" "offset sv = 0" "h \<le> length sbuf"
  shows "\<exists>b sb. for_each [0..<h] (\<lambda>i (buf, sbuf).
              bind (getitem x (2 * i) buf) (\<lambda>c.
              bind (setitem x i c buf) (\<lambda>buf.
              bind (getitem x (2 * i + 1) buf) (\<lambda>c.
              bind (setitem sv i c sbuf) (\<lambda>sbuf.
              Inr (buf, sbuf)))))) (buf, sbuf) = Inr (b, sb)
         \<and> length b = length buf \<and> length sb = length sbuf
         \<and> (\<forall>q<length buf. b ! q = (if offset x \<le> q \<and> q < offset x + h
                 then buf ! (offset x + 2 * (q - offset x)) else buf ! q))
         \<and> (\<forall>t<h. sb ! t = buf ! (offset x + 2 * t + 1))"
proof -
  define off where "off = offset x"
  define P where "P i st \<longleftrightarrow> (case st of (b, sb) \<Rightarrow>
     length b = length buf \<and> length sb = length sbuf \<and>
     (\<forall>q<length buf. b ! q = (if off \<le> q \<and> q < off + i
         then buf ! (off + 2 * (q - off)) else buf ! q)) \<and>
     (\<forall>t<i. sb ! t = buf ! (off + 2 * t + 1)))" for i and st :: "'a list \<times> 'a list"
  let ?body = "\<lambda>i (buf, sbuf).
              bind (getitem x (2 * i) buf) (\<lambda>c.
              bind (setitem x i c buf) (\<lambda>buf.
              bind (getitem x (2 * i + 1) buf) (\<lambda>c.
              bind (setitem sv i c sbuf) (\<lambda>sbuf.
              Inr (buf, sbuf)))))"
  have "\<exists>st'. for_each [0..<h] ?body (buf, sbuf) = Inr st' \<and> P h st'"
  proof (rule for_each_invariant)
    show "P 0 (buf, sbuf)" by (auto simp: P_def)
  next
    fix i st assume i: "i < h" and Pst: "P i st"
    obtain b sb where st: "st = (b, sb)" by (cases st)
    from Pst st have len: "length b = length buf" "length sb = length sbuf"
      and Pb: "\<And>q. q < length buf \<Longrightarrow> b ! q = (if off \<le> q \<and> q < off + i
         then buf ! (off + 2 * (q - off)) else buf ! q)"
      and Ps: "\<And>t. t < i \<Longrightarrow> sb ! t = buf ! (off + 2 * t + 1)"
      by (simp_all add: P_def)
    have r0: "b ! (off + 2 * i) = buf ! (off + 2 * i)"
      using Pb [of "off + 2 * i"] i x(3) by (simp add: off_def)
    have r1: "b ! (off + (2 * i + 1)) = buf ! (off + 2 * i + 1)"
      using Pb [of "off + (2 * i + 1)"] i x(3) by (simp add: off_def)
    define b' where "b' = b[off + i := buf ! (off + 2 * i)]"
    define sb' where "sb' = sb[i := buf ! (off + 2 * i + 1)]"
    have step: "?body i st = Inr (b', sb')"
      using i x s r0 r1 len
      by (simp add: st getitem_1d setitem_1d b'_def sb'_def off_def add.assoc)
    have "P (Suc i) (b', sb')"
      unfolding P_def prod.case
    proof (intro conjI allI impI)
      show "length b' = length buf" "length sb' = length sbuf"
        by (simp_all add: b'_def sb'_def len)
    next
      fix q assume q: "q < length buf"
      show "b' ! q = (if off \<le> q \<and> q < off + Suc i
         then buf ! (off + 2 * (q - off)) else buf ! q)"
      proof (cases "q = off + i")
        case True
        then show ?thesis using q len by (simp add: b'_def)
      next
        case False
        then have "b' ! q = b ! q" by (simp add: b'_def)
        moreover have "off \<le> q \<and> q < off + Suc i \<longleftrightarrow> off \<le> q \<and> q < off + i"
          using False by auto
        ultimately show ?thesis using Pb [OF q] by simp
      qed
    next
      fix t assume t: "t < Suc i"
      show "sb' ! t = buf ! (off + 2 * t + 1)"
      proof (cases "t = i")
        case True
        then show ?thesis using i s(4) len by (simp add: sb'_def)
      next
        case False
        with t have "t < i" by simp
        with Ps False show ?thesis by (simp add: sb'_def)
      qed
    qed
    with step show "\<exists>t'. ?body i st = Inr t' \<and> P (Suc i) t'" by blast
  qed
  then obtain st' where st': "for_each [0..<h] ?body (buf, sbuf) = Inr st'" "P h st'" by blast
  obtain b sb where "st' = (b, sb)" by (cases st')
  with st' show ?thesis unfolding P_def off_def by auto
qed

lemma deinterleave_patch:
  assumes "shape x = [n]" "strides x = [1]" "even n" "offset x + n \<le> length buf"
    and "n div 2 \<le> length sbuf"
  shows "\<exists>sbuf'. deinterleave x (buf, Some sbuf)
           = Inr (patch buf (offset x) (deinterleaved (slice buf (offset x) n)), Some sbuf')
         \<and> length sbuf' = length sbuf"
proof -
  from assms(3) obtain h where n: "n = 2 * h" by (elim evenE)
  define off where "off = offset x"
  define sv where "sv = upto_ax 0 h (full_view [length sbuf])"
  from assms(5) n have sv: "sv = \<lparr>offset = 0, shape = [h], strides = [1]\<rparr>"
    by (simp add: sv_def scratch_view)
  let ?body = "\<lambda>i (buf, sbuf).
              bind (getitem x (2 * i) buf) (\<lambda>c.
              bind (setitem x i c buf) (\<lambda>buf.
              bind (getitem x (2 * i + 1) buf) (\<lambda>c.
              bind (setitem sv i c sbuf) (\<lambda>sbuf.
              Inr (buf, sbuf)))))"
  from deinterleave_loop [of x h buf sv sbuf]
  obtain b sb where loop: "for_each [0..<h] ?body (buf, sbuf) = Inr (b, sb)"
    and len: "length b = length buf" "length sb = length sbuf"
    and Pb: "\<And>q. q < length buf \<Longrightarrow> b ! q = (if off \<le> q \<and> q < off + h
                 then buf ! (off + 2 * (q - off)) else buf ! q)"
    and Ps: "\<And>t. t < h \<Longrightarrow> sb ! t = buf ! (off + 2 * t + 1)"
    using assms n sv unfolding off_def by auto
  define src where "src = view_list sv sb"
  have src: "src = map (\<lambda>i. sb ! i) [0..<h]"
    by (simp add: src_def view_list_def sv)
  have lsrc: "length src = h" by (simp add: src)
  have fx: "from_ax 0 h x = \<lparr>offset = off + h, shape = [h], strides = [1]\<rparr>"
    using assms(1,2) n by (simp add: from_ax_def off_def)
  define b' where "b' = patch b (off + h) src"
  have "map (\<lambda>i. src ! i) [0..<h] = src" using map_nth [of src] lsrc by simp
  then have asg: "assign_view (from_ax 0 h x) src b = Inr b'"
    using fold_update_range [of "off + h" h b "\<lambda>i. src ! i"] assms(4) n lsrc len
    by (simp add: assign_view_def fx b'_def off_def)
  have "b' = patch buf off (deinterleaved (slice buf off n))"
  proof (rule eq_patchI)
    show "length b' = length buf" using assms(4) n lsrc len by (simp add: b'_def off_def)
    show "off + length (deinterleaved (slice buf off n)) \<le> length buf"
      using assms(4) by (simp add: deinterleaved_def off_def)
  next
    fix i assume "i < length (deinterleaved (slice buf off n))"
    then have i: "i < 2 * h" using assms(4) n by (simp add: deinterleaved_def off_def)
    then have q: "off + i < length buf" using assms(4) n by (simp add: off_def)
    show "b' ! (off + i) = deinterleaved (slice buf off n) ! i"
    proof (cases "i < h")
      case True
      then have "b' ! (off + i) = b ! (off + i)"
        using q len lsrc assms(4) n by (simp add: b'_def nth_patch off_def)
      also have "\<dots> = buf ! (off + 2 * i)" using Pb [OF q] True by simp
      finally show ?thesis using True i assms(4) n
        by (simp add: deinterleaved_def off_def)
    next
      case False
      then have "b' ! (off + i) = src ! (i - h)"
        using q len lsrc assms(4) n i by (simp add: b'_def nth_patch off_def)
      also have "\<dots> = buf ! (off + 2 * (i - h) + 1)"
        using False i Ps [of "i - h"] by (simp add: src)
      finally show ?thesis using False i assms(4) n
        by (simp add: deinterleaved_def off_def add.assoc)
    qed
  next
    fix q assume q: "q < length buf" "q < off \<or> off + length (deinterleaved (slice buf off n)) \<le> q"
    then have out: "q < off \<or> off + 2 * h \<le> q"
      using assms(4) n by (simp add: deinterleaved_def off_def)
    then have "b' ! q = b ! q"
      using q len lsrc assms(4) n by (auto simp: b'_def nth_patch off_def)
    also have "\<dots> = buf ! q" using Pb [OF q(1)] out by auto
    finally show "b' ! q = buf ! q" .
  qed
  then have "deinterleave x (buf, Some sbuf)
           = Inr (patch buf (offset x) (deinterleaved (slice buf (offset x) n)), Some sb)"
    using assms n asg loop
    by (simp add: deinterleave_def Let_def off_def flip: sv_def src_def)
  with len show ?thesis by blast
qed

lemma length_interleaved [simp]: "length (interleaved xs) = length xs"
  by (simp add: interleaved_def)

lemma length_deinterleaved [simp]: "length (deinterleaved xs) = length xs"
  by (simp add: deinterleaved_def)

lemma nth_interleaved:
  "length xs = 2 * h \<Longrightarrow> i < h \<Longrightarrow>
   interleaved xs ! (2 * i) = xs ! i \<and> interleaved xs ! (2 * i + 1) = xs ! (h + i)"
  by (simp add: interleaved_def)

lemma nth_deinterleaved:
  "length xs = 2 * h \<Longrightarrow> i < h \<Longrightarrow>
   deinterleaved xs ! i = xs ! (2 * i) \<and> deinterleaved xs ! (h + i) = xs ! (2 * i + 1)"
  by (simp add: deinterleaved_def)

lemma deinterleaved_interleaved: "even (length xs) \<Longrightarrow> deinterleaved (interleaved xs) = xs"
proof -
  assume "even (length xs)"
  then obtain h where h: "length xs = 2 * h" by (elim evenE)
  show ?thesis
  proof (rule nth_equalityI)
    show "length (deinterleaved (interleaved xs)) = length xs" by simp
  next
    fix t assume "t < length (deinterleaved (interleaved xs))"
    then have t: "t < 2 * h" using h by simp
    show "deinterleaved (interleaved xs) ! t = xs ! t"
    proof (cases "t < h")
      case True
      then show ?thesis
        using nth_deinterleaved [of "interleaved xs" h t] nth_interleaved [of xs h t] h by simp
    next
      case False
      with t have "t - h < h" "t = h + (t - h)" by simp_all
      then show ?thesis
        using nth_deinterleaved [of "interleaved xs" h "t - h"]
          nth_interleaved [of xs h "t - h"] h by simp
    qed
  qed
qed

lemma interleaved_deinterleaved: "even (length xs) \<Longrightarrow> interleaved (deinterleaved xs) = xs"
proof -
  assume "even (length xs)"
  then obtain h where h: "length xs = 2 * h" by (elim evenE)
  show ?thesis
  proof (rule nth_equalityI)
    show "length (interleaved (deinterleaved xs)) = length xs" by simp
  next
    fix t assume "t < length (interleaved (deinterleaved xs))"
    then have t: "t < 2 * h" using h by simp
    then have t2: "t div 2 < h" by simp
    show "interleaved (deinterleaved xs) ! t = xs ! t"
    proof (cases "even t")
      case True
      then have "t = 2 * (t div 2)" by simp
      then show ?thesis
        using nth_interleaved [of "deinterleaved xs" h "t div 2"]
          nth_deinterleaved [of xs h "t div 2"] h t2 by simp
    next
      case False
      then have "t = 2 * (t div 2) + 1" by simp
      then show ?thesis
        using nth_interleaved [of "deinterleaved xs" h "t div 2"]
          nth_deinterleaved [of xs h "t div 2"] h t2 by simp
    qed
  qed
qed

lemma slice_patch_same:
  "off + length xs \<le> length buf \<Longrightarrow> slice (patch buf off xs) off (length xs) = xs"
  by (simp add: slice_def patch_def)

lemma patch_patch_same:
  "length ys = length xs \<Longrightarrow> off + length xs \<le> length buf \<Longrightarrow>
   patch (patch buf off xs) off ys = patch buf off ys"
  by (simp add: patch_def)

lemma patch_slice_same:
  "off + n \<le> length buf \<Longrightarrow> patch buf off (slice buf off n) = buf"
proof -
  assume h: "off + n \<le> length buf"
  have "take n (drop off buf) @ drop (off + n) buf = drop off buf"
    by (metis add.commute append_take_drop_id drop_drop)
  with h show ?thesis by (simp add: patch_def slice_def)
qed

text \<open>
  Claim C8: on a contiguous view \<open>x\<close> of even length \<open>2 * h\<close> and with a scratch array of
  length at least \<open>h\<close>, \<open>interleave\<close> succeeds and moves element \<open>i\<close> of the first half to
  position \<open>2 * i\<close> and element \<open>i\<close> of the second half to position \<open>2 * i + 1\<close>;
  \<open>deinterleave\<close> succeeds and moves the element at position \<open>2 * i\<close> to position \<open>i\<close> and
  the one at \<open>2 * i + 1\<close> to position \<open>h + i\<close>.  Both leave the rest of the buffer alone.
\<close>

theorem interleave_deinterleave_spec:
  assumes "shape x = [2 * h]" "strides x = [1]" "offset x + 2 * h \<le> length buf"
    and "h \<le> length sbuf"
  shows "(\<exists>buf' sbuf'. interleave x (buf, Some sbuf) = Inr (buf', Some sbuf') \<and>
            length buf' = length buf \<and> length sbuf' = length sbuf \<and>
            (\<forall>i<h. buf' ! (offset x + 2 * i) = buf ! (offset x + i) \<and>
                   buf' ! (offset x + 2 * i + 1) = buf ! (offset x + h + i)) \<and>
            (\<forall>q<length buf. q < offset x \<or> offset x + 2 * h \<le> q \<longrightarrow> buf' ! q = buf ! q)) \<and>
         (\<exists>buf' sbuf'. deinterleave x (buf, Some sbuf) = Inr (buf', Some sbuf') \<and>
            length buf' = length buf \<and> length sbuf' = length sbuf \<and>
            (\<forall>i<h. buf' ! (offset x + i) = buf ! (offset x + 2 * i) \<and>
                   buf' ! (offset x + h + i) = buf ! (offset x + 2 * i + 1)) \<and>
            (\<forall>q<length buf. q < offset x \<or> offset x + 2 * h \<le> q \<longrightarrow> buf' ! q = buf ! q))"
proof (rule conjI)
  define B where "B = slice buf (offset x) (2 * h)"
  have lB: "length B = 2 * h" using assms(3) by (simp add: B_def)
  have nB: "\<And>i. i < 2 * h \<Longrightarrow> B ! i = buf ! (offset x + i)"
    using assms(3) by (simp add: B_def)
  {
    from interleave_patch [of x "2 * h" buf sbuf] assms
    obtain sbuf' where r: "interleave x (buf, Some sbuf)
           = Inr (patch buf (offset x) (interleaved B), Some sbuf')"
      and l: "length sbuf' = length sbuf" unfolding B_def by auto
    let ?b = "patch buf (offset x) (interleaved B)"
    have "length ?b = length buf" using lB assms(3) by simp
    moreover have "\<forall>i<h. ?b ! (offset x + 2 * i) = buf ! (offset x + i) \<and>
                   ?b ! (offset x + 2 * i + 1) = buf ! (offset x + h + i)"
      using lB assms(3) nth_interleaved [OF lB] nB
      by (simp add: nth_patch add.assoc)
    moreover have "\<forall>q<length buf. q < offset x \<or> offset x + 2 * h \<le> q \<longrightarrow> ?b ! q = buf ! q"
      using lB assms(3) by (auto simp: nth_patch)
    ultimately show "\<exists>buf' sbuf'. interleave x (buf, Some sbuf) = Inr (buf', Some sbuf') \<and>
            length buf' = length buf \<and> length sbuf' = length sbuf \<and>
            (\<forall>i<h. buf' ! (offset x + 2 * i) = buf ! (offset x + i) \<and>
                   buf' ! (offset x + 2 * i + 1) = buf ! (offset x + h + i)) \<and>
            (\<forall>q<length buf. q < offset x \<or> offset x + 2 * h \<le> q \<longrightarrow> buf' ! q = buf ! q)"
      using r l by blast
  }
  {
    from deinterleave_patch [of x "2 * h" buf sbuf] assms
    obtain sbuf' where r: "deinterleave x (buf, Some sbuf)
           = Inr (patch buf (offset x) (deinterleaved B), Some sbuf')"
      and l: "length sbuf' = length sbuf" unfolding B_def by auto
    let ?b = "patch buf (offset x) (deinterleaved B)"
    have "length ?b = length buf" using lB assms(3) by simp
    moreover have "\<forall>i<h. ?b ! (offset x + i) = buf ! (offset x + 2 * i) \<and>
                   ?b ! (offset x + h + i) = buf ! (offset x + 2 * i + 1)"
      using lB assms(3) nth_deinterleaved [OF lB] nB
      by (simp add: nth_patch add.assoc)
    moreover have "\<forall>q<length buf. q < offset x \<or> offset x + 2 * h \<le> q \<longrightarrow> ?b ! q = buf ! q"
      using lB assms(3) by (auto simp: nth_patch)
    ultimately show "\<exists>buf' sbuf'. deinterleave x (buf, Some sbuf) = Inr (buf', Some sbuf') \<and>
            length buf' = length buf \<and> length sbuf' = length sbuf \<and>
            (\<forall>i<h. buf' ! (offset x + i) = buf ! (offset x + 2 * i) \<and>
                   buf' ! (offset x + h + i) = buf ! (offset x + 2 * i + 1)) \<and>
            (\<forall>q<length buf. q < offset x \<or> offset x + 2 * h \<le> q \<longrightarrow> buf' ! q = buf ! q)"
      using r l by blast
  }
qed

text \<open>
  Claim C9: under the same preconditions \<open>deinterleave\<close> after \<open>interleave\<close>, and
  \<open>interleave\<close> after \<open>deinterleave\<close>, give back the buffer they started from.
\<close>

theorem interleave_deinterleave_inverse:
  assumes "shape x = [n]" "strides x = [1]" "even n" "offset x + n \<le> length buf"
    and "n div 2 \<le> length sbuf"
  shows "(\<exists>sbuf'. bind (interleave x (buf, Some sbuf)) (deinterleave x) = Inr (buf, Some sbuf')) \<and>
         (\<exists>sbuf'. bind (deinterleave x (buf, Some sbuf)) (interleave x) = Inr (buf, Some sbuf'))"
proof (rule conjI)
  define B where "B = slice buf (offset x) n"
  have lB: "length B = n" using assms(4) by (simp add: B_def)
  {
    from interleave_patch [OF assms]
    obtain s1 where r1: "interleave x (buf, Some sbuf)
           = Inr (patch buf (offset x) (interleaved B), Some s1)"
      and l1: "length s1 = length sbuf" unfolding B_def by auto
    let ?b = "patch buf (offset x) (interleaved B)"
    have lb: "offset x + n \<le> length ?b" using lB assms(4) by simp
    from deinterleave_patch [OF assms(1-3) lb, of s1] assms(5) l1
    obtain s2 where r2: "deinterleave x (?b, Some s1)
           = Inr (patch ?b (offset x) (deinterleaved (slice ?b (offset x) n)), Some s2)"
      by auto
    have "slice ?b (offset x) n = interleaved B"
      using slice_patch_same [of "offset x" "interleaved B" buf] lB assms(4) by simp
    then have "patch ?b (offset x) (deinterleaved (slice ?b (offset x) n)) = buf"
      using lB assms(3,4) patch_slice_same [of "offset x" n buf]
      by (simp add: deinterleaved_interleaved patch_patch_same B_def)
    with r1 r2 show "\<exists>sbuf'. bind (interleave x (buf, Some sbuf)) (deinterleave x) = Inr (buf, Some sbuf')"
      by simp
  }
  {
    from deinterleave_patch [OF assms]
    obtain s1 where r1: "deinterleave x (buf, Some sbuf)
           = Inr (patch buf (offset x) (deinterleaved B), Some s1)"
      and l1: "length s1 = length sbuf" unfolding B_def by auto
    let ?b = "patch buf (offset x) (deinterleaved B)"
    have lb: "offset x + n \<le> length ?b" using lB assms(4) by simp
    from interleave_patch [OF assms(1-3) lb, of s1] assms(5) l1
    obtain s2 where r2: "interleave x (?b, Some s1)
           = Inr (patch ?b (offset x) (interleaved (slice ?b (offset x) n)), Some s2)"
      by auto
    have "slice ?b (offset x) n = deinterleaved B"
      using slice_patch_same [of "offset x" "deinterleaved B" buf] lB assms(4) by simp
    then have "patch ?b (offset x) (interleaved (slice ?b (offset x) n)) = buf"
      using lB assms(3,4) patch_slice_same [of "offset x" n buf]
      by (simp add: interleaved_deinterleaved patch_patch_same B_def)
    with r1 r2 show "\<exists>sbuf'. bind (deinterleave x (buf, Some sbuf)) (interleave x) = Inr (buf, Some sbuf')"
      by simp
  }
qed

theorem interleave_deinterleave_spec_witness:
  "shape (full_view [8]) = [2 * 4] \<and> strides (full_view [8]) = [1] \<and>
   offset (full_view [8]) + 2 * 4 \<le> length [1, 2, 3, 4, 5, 6, 7, 8 :: nat] \<and>
   4 \<le> length [0, 0, 0, 0 :: nat] \<and>
   interleave (full_view [8]) ([1, 2, 3, 4, 5, 6, 7, 8 :: nat], Some [0, 0, 0, 0])
     = Inr ([1, 5, 2, 6, 3, 7, 4, 8], Some [1, 2, 3, 4]) \<and>
   deinterleave (full_view [8]) ([1, 2, 3, 4, 5, 6, 7, 8 :: nat], Some [0, 0, 0, 0])
     = Inr ([1, 3, 5, 7, 2, 4, 6, 8], Some [2, 4, 6, 8])"
proof -
  have h1: "shape (full_view [8]) = [2 * 4]" by (simp add: full_view_def)
  have h2: "strides (full_view [8]) = [1]" by (simp add: full_view_def c_strides_def)
  have h3: "offset (full_view [8]) + 2 * 4 \<le> length [1, 2, 3, 4, 5, 6, 7, 8 :: nat]"
    by (simp add: full_view_def)
  have h4: "4 \<le> length [0, 0, 0, 0 :: nat]" by simp
  have e1: "interleave (full_view [8]) ([1, 2, 3, 4, 5, 6, 7, 8 :: nat], Some [0, 0, 0, 0])
     = Inr ([1, 5, 2, 6, 3, 7, 4, 8], Some [1, 2, 3, 4])" by code_simp
  have e2: "deinterleave (full_view [8]) ([1, 2, 3, 4, 5, 6, 7, 8 :: nat], Some [0, 0, 0, 0])
     = Inr ([1, 3, 5, 7, 2, 4, 6, 8], Some [2, 4, 6, 8])" by code_simp
  from interleave_deinterleave_spec [OF h1 h2 h3 h4] h1 h2 h3 h4 e1 e2 show ?thesis by blast
qed

theorem interleave_deinterleave_inverse_witness:
  "shape (full_view [8]) = [8] \<and> strides (full_view [8]) = [1] \<and> even (8 :: nat) \<and>
   offset (full_view [8]) + 8 \<le> length [1, 2, 3, 4, 5, 6, 7, 8 :: nat] \<and>
   8 div 2 \<le> length [0, 0, 0, 0 :: nat] \<and>
   bind (interleave (full_view [8]) ([1, 2, 3, 4, 5, 6, 7, 8 :: nat], Some [0, 0, 0, 0]))
     (deinterleave (full_view [8])) = Inr ([1, 2, 3, 4, 5, 6, 7, 8], Some [5, 6, 7, 8]) \<and>
   bind (deinterleave (full_view [8]) ([1, 2, 3, 4, 5, 6, 7, 8 :: nat], Some [0, 0, 0, 0]))
     (interleave (full_view [8])) = Inr ([1, 2, 3, 4, 5, 6, 7, 8], Some [1, 3, 5, 7])"
proof -
  have h1: "shape (full_view [8]) = [8]" by (simp add: full_view_def)
  have h2: "strides (full_view [8]) = [1]" by (simp add: full_view_def c_strides_def)
  have h3: "even (8 :: nat)" by simp
  have h4: "offset (full_view [8]) + 8 \<le> length [1, 2, 3, 4, 5, 6, 7, 8 :: nat]"
    by (simp add: full_view_def)
  have h5: "8 div 2 \<le> length [0, 0, 0, 0 :: nat]" by simp
  have e1: "bind (interleave (full_view [8]) ([1, 2, 3, 4, 5, 6, 7, 8 :: nat], Some [0, 0, 0, 0]))
     (deinterleave (full_view [8])) = Inr ([1, 2, 3, 4, 5, 6, 7, 8], Some [5, 6, 7, 8])"
    by code_simp
  have e2: "bind (deinterleave (full_view [8]) ([1, 2, 3, 4, 5, 6, 7, 8 :: nat], Some [0, 0, 0, 0]))
     (interleave (full_view [8])) = Inr ([1, 2, 3, 4, 5, 6, 7, 8], Some [1, 3, 5, 7])"
    by code_simp
  from interleave_deinterleave_inverse [OF h1 h2 h3 h4 h5] h1 h2 h3 h4 h5 e1 e2
  show ?thesis by blast
qed

section \<open>In-place transpose\<close>

text \<open>
  An in-place permutation is described by the set \<open>R\<close> of pairs (target position, source
  position): \<open>moved R b b'\<close> says that \<open>b'\<close> holds at every target what \<open>b\<close> held at its
  source, and agrees with \<open>b\<close> everywhere else.
\<close>

definition moved :: "(nat \<times> nat) set \<Rightarrow> 'a list \<Rightarrow> 'a list \<Rightarrow> bool" where
  "moved R b b' \<longleftrightarrow>
     length b' = length b \<and> (\<forall>(p, q) \<in> R. b' ! p = b ! q) \<and>
     (\<forall>p<length b. p \<notin> fst ` R \<longrightarrow> b' ! p = b ! p)"

lemma moved_empty: "moved {} b b"
  by (simp add: moved_def)

lemma moved_comp:
  assumes m1: "moved R1 b0 b1" and m2: "moved R2 b1 b2"
    and d1: "fst ` R1 \<inter> fst ` R2 = {}" and d2: "snd ` R2 \<inter> fst ` R1 = {}"
    and i1: "fst ` R1 \<subseteq> {..<length b0}" and i2: "snd ` R2 \<subseteq> {..<length b0}"
  shows "moved (R1 \<union> R2) b0 b2"
  unfolding moved_def
proof (intro conjI ballI allI impI)
  show "length b2 = length b0" using m1 m2 by (simp add: moved_def)
next
  fix pq assume "pq \<in> R1 \<union> R2"
  then consider "pq \<in> R1" | "pq \<in> R2" by blast
  then show "case pq of (p, q) \<Rightarrow> b2 ! p = b0 ! q"
  proof cases
    case 1
    obtain p q where pq: "pq = (p, q)" by (cases pq)
    with 1 have "p \<in> fst ` R1" by force
    with d1 i1 have "p \<notin> fst ` R2" "p < length b1" using m1 by (auto simp: moved_def)
    with m2 have "b2 ! p = b1 ! p" by (simp add: moved_def)
    also from m1 1 pq have "\<dots> = b0 ! q" by (auto simp: moved_def)
    finally show ?thesis by (simp add: pq)
  next
    case 2
    obtain p q where pq: "pq = (p, q)" by (cases pq)
    with 2 have "q \<in> snd ` R2" by force
    with d2 i2 have "q \<notin> fst ` R1" "q < length b0" by auto
    with m1 have "b1 ! q = b0 ! q" by (simp add: moved_def)
    moreover from m2 2 pq have "b2 ! p = b1 ! q" by (auto simp: moved_def)
    ultimately show ?thesis by (simp add: pq)
  qed
next
  fix p assume p: "p < length b0" "p \<notin> fst ` (R1 \<union> R2)"
  then have "p \<notin> fst ` R1" "p \<notin> fst ` R2" by (auto simp: image_Un)
  with p m1 m2 show "b2 ! p = b0 ! p" by (simp add: moved_def)
qed

text \<open>
  Index triples \<open>(i, j, l)\<close> of a view of shape \<open>(n, n, m)\<close>: \<open>cube n m\<close> is the set of all of
  them, \<open>tr\<close> exchanges the two outer indices, \<open>shift u v\<close> moves into the quadrant at
  \<open>(u, v)\<close>, and \<open>exch A f g\<close> sends position \<open>g (tr t)\<close> to position \<open>f t\<close> for \<open>t\<close> in \<open>A\<close>.
\<close>

definition tr :: "nat \<times> nat \<times> nat \<Rightarrow> nat \<times> nat \<times> nat" where
  "tr = (\<lambda>(i, j, l). (j, i, l))"

definition shift :: "nat \<Rightarrow> nat \<Rightarrow> nat \<times> nat \<times> nat \<Rightarrow> nat \<times> nat \<times> nat" where
  "shift u v = (\<lambda>(i, j, l). (i + u, j + v, l))"

definition cube :: "nat \<Rightarrow> nat \<Rightarrow> (nat \<times> nat \<times> nat) set" where
  "cube n m = {0..<n} \<times> {0..<n} \<times> {0..<m}"

definition exch ::
  "(nat \<times> nat \<times> nat) set \<Rightarrow> (nat \<times> nat \<times> nat \<Rightarrow> nat) \<Rightarrow> (nat \<times> nat \<times> nat \<Rightarrow> nat)
   \<Rightarrow> (nat \<times> nat) set" where
  "exch A f g = (\<lambda>t. (f t, g (tr t))) ` A"

lemma tr_tr [simp]: "tr (tr t) = t"
  by (cases t) (simp add: tr_def)

lemma tr_shift: "tr (shift u v t) = shift v u (tr t)"
  by (cases t) (simp add: tr_def shift_def)

lemma tr_cube [simp]: "tr ` cube n m = cube n m"
  by (force simp: tr_def cube_def image_iff)

lemma inj_shift: "inj (shift u v)"
  by (auto simp: inj_on_def shift_def)

lemma inj_tr: "inj tr"
  by (auto simp: inj_on_def tr_def)

lemma shift_cube_subset:
  "u + h \<le> n \<Longrightarrow> v + h \<le> n \<Longrightarrow> shift u v ` cube h m \<subseteq> cube n m"
  by (auto simp: shift_def cube_def)

lemma cube_quadrants:
  "cube (2 * h) m =
     shift 0 0 ` cube h m \<union> shift 0 h ` cube h m \<union> shift h 0 ` cube h m \<union> shift h h ` cube h m"
proof (intro set_eqI iffI)
  fix t assume t: "t \<in> cube (2 * h) m"
  obtain i j l where ijl: "t = (i, j, l)" by (cases t)
  with t have b: "i < 2 * h" "j < 2 * h" "l < m" by (simp_all add: cube_def)
  define u where "u = (if i < h then 0 else h)"
  define v where "v = (if j < h then 0 else h)"
  have "(i - u, j - v, l) \<in> cube h m" using b by (auto simp: cube_def u_def v_def)
  moreover have "t = shift u v (i - u, j - v, l)"
    by (simp add: shift_def ijl u_def v_def)
  ultimately have "t \<in> shift u v ` cube h m" by blast
  then show "t \<in> shift 0 0 ` cube h m \<union> shift 0 h ` cube h m \<union> shift h 0 ` cube h m
               \<union> shift h h ` cube h m"
    by (auto simp: u_def v_def split: if_splits)
next
  fix t assume "t \<in> shift 0 0 ` cube h m \<union> shift 0 h ` cube h m \<union> shift h 0 ` cube h m
               \<union> shift h h ` cube h m"
  then show "t \<in> cube (2 * h) m"
    using shift_cube_subset [of 0 h "2 * h" 0 m] shift_cube_subset [of 0 h "2 * h" h m]
      shift_cube_subset [of h h "2 * h" 0 m] shift_cube_subset [of h h "2 * h" h m]
    by auto
qed

lemma shift_disjoint:
  "(u, v) \<noteq> (u', v') \<Longrightarrow> u \<in> {0, h} \<Longrightarrow> v \<in> {0, h} \<Longrightarrow> u' \<in> {0, h} \<Longrightarrow> v' \<in> {0, h} \<Longrightarrow>
   shift u v ` cube h m \<inter> shift u' v' ` cube h m = {}"
  by (auto simp: shift_def cube_def)

lemma exch_Un: "exch (A \<union> B) f g = exch A f g \<union> exch B f g"
  by (simp add: exch_def image_Un)

lemma exch_shift: "exch (shift u v ` A) f g = exch A (f \<circ> shift u v) (g \<circ> shift v u)"
  by (simp add: exch_def image_image tr_shift)

lemma fst_exch [simp]: "fst ` exch A f g = f ` A"
  by (simp add: exch_def image_image)

lemma snd_exch [simp]: "snd ` exch A f g = g ` tr ` A"
  by (simp add: exch_def image_image)

text \<open>
  \<open>posf a (i, j, l)\<close> is the position in the buffer of element \<open>a[i, j, l]\<close>.  \<open>sep A f g len\<close>
  says that two views do not overlap themselves or each other and lie inside a buffer of
  \<open>len\<close> elements.
\<close>

definition posf :: "view \<Rightarrow> nat \<times> nat \<times> nat \<Rightarrow> nat" where
  "posf a = (\<lambda>(i, j, l). offset a + i * (strides a ! 0) + j * (strides a ! 1) + l * (strides a ! 2))"

definition sep ::
  "(nat \<times> nat \<times> nat) set \<Rightarrow> (nat \<times> nat \<times> nat \<Rightarrow> nat) \<Rightarrow> (nat \<times> nat \<times> nat \<Rightarrow> nat) \<Rightarrow> nat
   \<Rightarrow> bool" where
  "sep A f g len \<longleftrightarrow>
     inj_on f A \<and> inj_on g A \<and> f ` A \<inter> g ` A = {} \<and> f ` A \<subseteq> {..<len} \<and> g ` A \<subseteq> {..<len}"

lemma quadrant_views:
  assumes "shape a = [2 * h, 2 * h, m]"
  shows "shape (upto_ax 1 h (upto_ax 0 h a)) = [h, h, m]"
    and "shape (from_ax 1 h (upto_ax 0 h a)) = [h, h, m]"
    and "shape (upto_ax 1 h (from_ax 0 h a)) = [h, h, m]"
    and "shape (from_ax 1 h (from_ax 0 h a)) = [h, h, m]"
    and "strides (upto_ax 1 h (upto_ax 0 h a)) = strides a"
    and "strides (from_ax 1 h (upto_ax 0 h a)) = strides a"
    and "strides (upto_ax 1 h (from_ax 0 h a)) = strides a"
    and "strides (from_ax 1 h (from_ax 0 h a)) = strides a"
    and "posf (upto_ax 1 h (upto_ax 0 h a)) = posf a \<circ> shift 0 0"
    and "posf (from_ax 1 h (upto_ax 0 h a)) = posf a \<circ> shift 0 h"
    and "posf (upto_ax 1 h (from_ax 0 h a)) = posf a \<circ> shift h 0"
    and "posf (from_ax 1 h (from_ax 0 h a)) = posf a \<circ> shift h h"
  using assms
  by (simp_all add: upto_ax_def from_ax_def posf_def shift_def fun_eq_iff add_mult_distrib)

lemma sep_quadrant:
  assumes "sep (cube (2 * h) m) f g len" "u \<in> {0, h}" "v \<in> {0, h}"
  shows "sep (cube h m) (f \<circ> shift u v) (g \<circ> shift v u) len"
proof -
  have "u + h \<le> 2 * h" "v + h \<le> 2 * h" using assms(2,3) by auto
  then have sub: "shift u v ` cube h m \<subseteq> cube (2 * h) m" "shift v u ` cube h m \<subseteq> cube (2 * h) m"
    by (simp_all add: shift_cube_subset)
  from assms(1) have f: "inj_on f (cube (2 * h) m)" and g: "inj_on g (cube (2 * h) m)"
    and d: "f ` cube (2 * h) m \<inter> g ` cube (2 * h) m = {}"
    and bf: "f ` cube (2 * h) m \<subseteq> {..<len}" and bg: "g ` cube (2 * h) m \<subseteq> {..<len}"
    by (simp_all add: sep_def)
  have "inj_on (f \<circ> shift u v) (cube h m)"
    by (rule comp_inj_on) (use inj_shift f sub in \<open>auto intro: inj_on_subset\<close>)
  moreover have "inj_on (g \<circ> shift v u) (cube h m)"
    by (rule comp_inj_on) (use inj_shift g sub in \<open>auto intro: inj_on_subset\<close>)
  moreover have "(f \<circ> shift u v) ` cube h m \<subseteq> f ` cube (2 * h) m"
    using sub by (auto simp: image_comp [symmetric])
  moreover have "(g \<circ> shift v u) ` cube h m \<subseteq> g ` cube (2 * h) m"
    using sub by (auto simp: image_comp [symmetric])
  ultimately show ?thesis using d bf bg unfolding sep_def by blast
qed

lemma sep_sym: "sep A f g len \<Longrightarrow> sep A g f len"
  by (auto simp: sep_def)

lemma moved_comp_footprint:
  assumes "moved R1 b0 b1" "moved R2 b1 b2"
    and "fst ` R1 \<subseteq> F1" "fst ` R2 \<subseteq> F2" "snd ` R2 \<subseteq> F2"
    and "F1 \<inter> F2 = {}" "F1 \<subseteq> {..<length b0}" "F2 \<subseteq> {..<length b0}"
  shows "moved (R1 \<union> R2) b0 b2"
  by (rule moved_comp [OF assms(1,2)]) (use assms(3-8) in blast)+

lemma moved_swap:
  assumes "p \<noteq> q" "p < length b" "q < length b"
  shows "moved {(p, q), (q, p)} b (b[p := b ! q, q := b ! p])"
  using assms by (auto simp: moved_def nth_list_update)

lemma length3E:
  assumes "length xs = 3"
  obtains x0 x1 x2 where "xs = [x0, x1, x2]"
proof -
  from assms obtain x0 ys where 1: "xs = x0 # ys" "length ys = 2"
    by (cases xs) auto
  then obtain x1 zs where 2: "ys = x1 # zs" "length zs = 1" by (cases ys) auto
  then obtain x2 where "zs = [x2]" by (cases zs) auto
  with 1 2 that show ?thesis by simp
qed

lemma swap_rows:
  fixes buf :: "'a list"
  assumes a: "shape a = [1, 1, m]" "length (strides a) = 3"
    and b: "shape b = [1, 1, m]" "length (strides b) = 3"
    and s: "sep (cube 1 m) (posf a) (posf b) (length buf)"
  shows "\<exists>buf'. (let a = sub_view (sub_view a 0) 0; b = sub_view (sub_view b 0) 0 in
         for_each [0..<m] (\<lambda>i buf.
           bind (getitem b i buf) (\<lambda>bi.
           bind (getitem a i buf) (\<lambda>ai.
           bind (setitem a i bi buf) (\<lambda>buf.
           setitem b i ai buf)))) buf) = Inr buf'
         \<and> moved (exch (cube 1 m) (posf a) (posf b) \<union> exch (cube 1 m) (posf b) (posf a)) buf buf'"
proof -
  define a' where "a' = sub_view (sub_view a 0) 0"
  define b' where "b' = sub_view (sub_view b 0) 0"
  define C where "C i = {0::nat} \<times> {0::nat} \<times> {0..<i}" for i :: nat
  define R where "R i = exch (C i) (posf a) (posf b) \<union> exch (C i) (posf b) (posf a)" for i
  from a(2) obtain a0 a1 a2 where stra: "strides a = [a0, a1, a2]" by (rule length3E)
  from b(2) obtain b0 b1 b2 where strb: "strides b = [b0, b1, b2]" by (rule length3E)
  have sa: "shape a' = [m]" "\<And>i. offset a' + i * hd (strides a') = posf a (0, 0, i)"
    using a(1) stra by (simp_all add: a'_def sub_view_def posf_def)
  have sb: "shape b' = [m]" "\<And>i. offset b' + i * hd (strides b') = posf b (0, 0, i)"
    using b(1) strb by (simp_all add: b'_def sub_view_def posf_def)
  have Cm: "C m = cube 1 m" by (auto simp: C_def cube_def)
  have Csub: "\<And>i. i \<le> m \<Longrightarrow> C i \<subseteq> cube 1 m" by (auto simp: C_def cube_def)
  have trC: "\<And>i. tr ` C i = C i" by (force simp: C_def tr_def image_iff)
  let ?body = "\<lambda>i buf.
           bind (getitem b' i buf) (\<lambda>bi.
           bind (getitem a' i buf) (\<lambda>ai.
           bind (setitem a' i bi buf) (\<lambda>buf.
           setitem b' i ai buf)))"
  have "\<exists>buf'. for_each [0..<m] ?body buf = Inr buf' \<and> moved (R m) buf buf'"
  proof (rule for_each_invariant [where P = "\<lambda>i t. moved (R i) buf t"])
    show "moved (R 0) buf buf" by (simp add: R_def C_def exch_def moved_empty)
  next
    fix i t assume i: "i < m" and t: "moved (R i) buf t"
    define p where "p = posf a (0, 0, i)"
    define q where "q = posf b (0, 0, i)"
    have in_cube: "(0, 0, i) \<in> cube 1 m" using i by (simp add: cube_def)
    have len: "length t = length buf" using t by (simp add: moved_def)
    from s in_cube have pq: "p \<noteq> q" "p < length buf" "q < length buf"
      unfolding sep_def p_def q_def by (blast, blast, blast)
    define t' where "t' = t[p := t ! q, q := t ! p]"
    have step: "?body i t = Inr t'"
      using i sa sb by (simp add: getitem_1d setitem_1d t'_def p_def q_def)
    have m2: "moved {(p, q), (q, p)} t t'"
      unfolding t'_def by (rule moved_swap) (use pq len in simp_all)
    have notin: "(0, 0, i) \<notin> C i" by (simp add: C_def)
    have Ci: "C i \<subseteq> cube 1 m" using Csub [of i] i by simp
    from s have ia: "inj_on (posf a) (cube 1 m)" and ib: "inj_on (posf b) (cube 1 m)"
      and dab: "posf a ` cube 1 m \<inter> posf b ` cube 1 m = {}"
      and ba: "posf a ` cube 1 m \<subseteq> {..<length buf}"
      and bb: "posf b ` cube 1 m \<subseteq> {..<length buf}"
      by (simp_all add: sep_def)
    have imgs: "posf a ` C i \<subseteq> posf a ` cube 1 m" "posf b ` C i \<subseteq> posf b ` cube 1 m"
      using Ci by blast+
    have F1: "posf a ` C i \<union> posf b ` C i \<subseteq> {..<length buf}"
      using imgs ba bb by blast
    have dis: "(posf a ` C i \<union> posf b ` C i) \<inter> {p, q} = {}"
    proof -
      have 1: "p \<notin> posf a ` C i"
        unfolding p_def using inj_on_image_mem_iff [OF ia in_cube Ci] notin by simp
      have 2: "q \<notin> posf b ` C i"
        unfolding q_def using inj_on_image_mem_iff [OF ib in_cube Ci] notin by simp
      have pin: "p \<in> posf a ` cube 1 m" unfolding p_def using in_cube by (rule imageI)
      have qin: "q \<in> posf b ` cube 1 m" unfolding q_def using in_cube by (rule imageI)
      have 3: "p \<notin> posf b ` C i" using pin dab imgs(2) by blast
      have 4: "q \<notin> posf a ` C i" using qin dab imgs(1) by blast
      from 1 2 3 4 show ?thesis by simp
    qed
    have fR: "fst ` R i = posf a ` C i \<union> posf b ` C i"
      by (simp add: R_def image_Un trC Un_commute)
    have "moved (R i \<union> {(p, q), (q, p)}) buf t'"
    proof (rule moved_comp_footprint [OF t m2])
      show "fst ` R i \<subseteq> posf a ` C i \<union> posf b ` C i" by (simp add: fR)
      show "fst ` {(p, q), (q, p)} \<subseteq> {p, q}" by simp
      show "snd ` {(p, q), (q, p)} \<subseteq> {p, q}" by simp
      show "(posf a ` C i \<union> posf b ` C i) \<inter> {p, q} = {}" by (rule dis)
      show "posf a ` C i \<union> posf b ` C i \<subseteq> {..<length buf}" by (rule F1)
      show "{p, q} \<subseteq> {..<length buf}" using pq by simp
    qed
    moreover have "R (Suc i) = R i \<union> {(p, q), (q, p)}"
    proof -
      have CS: "C (Suc i) = C i \<union> {(0, 0, i)}" by (auto simp: C_def)
      have e: "exch {(0, 0, i)} (posf a) (posf b) = {(p, q)}"
        "exch {(0, 0, i)} (posf b) (posf a) = {(q, p)}"
        by (simp_all add: exch_def tr_def p_def q_def)
      have "exch (C (Suc i)) (posf a) (posf b) = insert (p, q) (exch (C i) (posf a) (posf b))"
        "exch (C (Suc i)) (posf b) (posf a) = insert (q, p) (exch (C i) (posf b) (posf a))"
        unfolding CS exch_Un e by simp_all
      then show ?thesis
        by (simp add: R_def insert_commute)
    qed
    ultimately show "\<exists>t'. ?body i t = Inr t' \<and> moved (R (Suc i)) buf t'"
      using step by simp
  qed
  then show ?thesis by (simp add: R_def Cm a'_def b'_def Let_def)
qed

lemma tr_shift_cube: "tr ` shift u v ` cube h m = shift v u ` cube h m"
proof -
  have "tr ` shift u v ` cube h m = (\<lambda>x. shift v u (tr x)) ` cube h m"
    by (simp add: image_image tr_shift)
  also have "\<dots> = shift v u ` tr ` cube h m" by (simp only: image_image)
  also have "\<dots> = shift v u ` cube h m" by (simp only: tr_cube)
  finally show ?thesis .
qed

lemma quadrant_images_disjoint:
  assumes f: "inj_on f (cube (2 * h) m)"
    and ne: "(u, v) \<noteq> (u', v')" and uv: "u \<in> {0, h}" "v \<in> {0, h}" "u' \<in> {0, h}" "v' \<in> {0, h}"
  shows "f ` shift u v ` cube h m \<inter> f ` shift u' v' ` cube h m = {}"
proof -
  have "u + h \<le> 2 * h" "v + h \<le> 2 * h" "u' + h \<le> 2 * h" "v' + h \<le> 2 * h"
    using uv by auto
  then have sub: "shift u v ` cube h m \<subseteq> cube (2 * h) m" "shift u' v' ` cube h m \<subseteq> cube (2 * h) m"
    by (simp_all add: shift_cube_subset)
  have "f ` shift u v ` cube h m \<inter> f ` shift u' v' ` cube h m
        = f ` (shift u v ` cube h m \<inter> shift u' v' ` cube h m)"
    using inj_on_image_Int [OF f sub] by simp
  also have "\<dots> = {}" using shift_disjoint [OF ne uv] by simp
  finally show ?thesis .
qed

lemma quadrant_image_subset:
  assumes "u \<in> {0, h}" "v \<in> {0, h}"
  shows "f ` shift u v ` cube h m \<subseteq> f ` cube (2 * h) m"
proof -
  have "u + h \<le> 2 * h" "v + h \<le> 2 * h" using assms by auto
  then have "shift u v ` cube h m \<subseteq> cube (2 * h) m" by (simp add: shift_cube_subset)
  then show ?thesis by blast
qed

definition foot ::
  "nat \<Rightarrow> nat \<Rightarrow> (nat \<times> nat \<times> nat \<Rightarrow> nat) \<Rightarrow> (nat \<times> nat \<times> nat \<Rightarrow> nat) \<Rightarrow> nat \<Rightarrow> nat \<Rightarrow> nat set" where
  "foot h m f g u v = f ` shift u v ` cube h m \<union> g ` shift v u ` cube h m"

definition quad_rel ::
  "nat \<Rightarrow> nat \<Rightarrow> (nat \<times> nat \<times> nat \<Rightarrow> nat) \<Rightarrow> (nat \<times> nat \<times> nat \<Rightarrow> nat) \<Rightarrow> nat \<Rightarrow> nat
   \<Rightarrow> (nat \<times> nat) set" where
  "quad_rel h m f g u v = exch (shift u v ` cube h m) f g \<union> exch (shift v u ` cube h m) g f"

lemma fst_quad_rel: "fst ` quad_rel h m f g u v = foot h m f g u v"
  by (simp add: quad_rel_def foot_def image_Un)

lemma snd_quad_rel: "snd ` quad_rel h m f g u v = foot h m f g u v"
  by (simp add: quad_rel_def foot_def image_Un tr_shift_cube Un_commute)

lemma foot_disjoint:
  assumes s: "sep (cube (2 * h) m) f g len"
    and ne: "(u, v) \<noteq> (u', v')" and uv: "u \<in> {0, h}" "v \<in> {0, h}" "u' \<in> {0, h}" "v' \<in> {0, h}"
  shows "foot h m f g u v \<inter> foot h m f g u' v' = {}"
proof -
  from s have f: "inj_on f (cube (2 * h) m)" and g: "inj_on g (cube (2 * h) m)"
    and d: "f ` cube (2 * h) m \<inter> g ` cube (2 * h) m = {}"
    by (simp_all add: sep_def)
  have ne': "(v, u) \<noteq> (v', u')" using ne by auto
  have 1: "f ` shift u v ` cube h m \<inter> f ` shift u' v' ` cube h m = {}"
    by (rule quadrant_images_disjoint [OF f ne uv])
  have 2: "g ` shift v u ` cube h m \<inter> g ` shift v' u' ` cube h m = {}"
    by (rule quadrant_images_disjoint [OF g ne' uv(2,1,4,3)])
  have cross: "\<And>A B. A \<subseteq> f ` cube (2 * h) m \<Longrightarrow> B \<subseteq> g ` cube (2 * h) m \<Longrightarrow> A \<inter> B = {}"
    using d by blast
  have 3: "f ` shift u v ` cube h m \<inter> g ` shift v' u' ` cube h m = {}"
    by (rule cross) (rule quadrant_image_subset [OF uv(1,2)], rule quadrant_image_subset [OF uv(4,3)])
  have "f ` shift u' v' ` cube h m \<inter> g ` shift v u ` cube h m = {}"
    by (rule cross) (rule quadrant_image_subset [OF uv(3,4)], rule quadrant_image_subset [OF uv(2,1)])
  then have 4: "g ` shift v u ` cube h m \<inter> f ` shift u' v' ` cube h m = {}"
    by (simp add: Int_commute)
  show ?thesis unfolding foot_def using 1 2 3 4
    by (simp add: Int_Un_distrib Int_Un_distrib2)
qed

lemma foot_bounded:
  assumes s: "sep (cube (2 * h) m) f g len" and uv: "u \<in> {0, h}" "v \<in> {0, h}"
  shows "foot h m f g u v \<subseteq> {..<len}"
proof -
  from s have bf: "f ` cube (2 * h) m \<subseteq> {..<len}" and bg: "g ` cube (2 * h) m \<subseteq> {..<len}"
    by (simp_all add: sep_def)
  have "f ` shift u v ` cube h m \<subseteq> {..<len}"
    by (rule subset_trans [OF quadrant_image_subset [OF uv(1,2)] bf])
  moreover have "g ` shift v u ` cube h m \<subseteq> {..<len}"
    by (rule subset_trans [OF quadrant_image_subset [OF uv(2,1)] bg])
  ultimately show ?thesis unfolding foot_def by simp
qed

lemma quad_rel_all:
  "quad_rel h m f g 0 0 \<union> quad_rel h m f g 0 h \<union> quad_rel h m f g h 0 \<union> quad_rel h m f g h h
   = exch (cube (2 * h) m) f g \<union> exch (cube (2 * h) m) g f"
  unfolding quad_rel_def cube_quadrants exch_Un by (simp add: Un_ac)

lemma four_moves:
  assumes s: "sep (cube (2 * h) m) f g (length b0)"
    and m1: "moved (quad_rel h m f g 0 0) b0 b1"
    and m2: "moved (quad_rel h m f g 0 h) b1 b2"
    and m3: "moved (quad_rel h m f g h 0) b2 b3"
    and m4: "moved (quad_rel h m f g h h) b3 b4"
  shows "moved (exch (cube (2 * h) m) f g \<union> exch (cube (2 * h) m) g f) b0 b4"
proof (cases "h = 0")
  case True
  have "cube 0 m = {}" by (simp add: cube_def)
  with True have e: "\<And>u v. quad_rel h m f g u v = {}" by (simp add: quad_rel_def exch_def)
  from m1 m2 m3 m4 have "moved {} b0 b4" unfolding e moved_def by simp
  moreover have "exch (cube (2 * h) m) f g \<union> exch (cube (2 * h) m) g f = {}"
    using True \<open>cube 0 m = {}\<close> by (simp add: exch_def)
  ultimately show ?thesis by simp
next
  case False
  note fd = foot_disjoint [OF s]
  have b00: "foot h m f g 0 0 \<subseteq> {..<length b0}" by (rule foot_bounded [OF s]) simp_all
  have b0h: "foot h m f g 0 h \<subseteq> {..<length b0}" by (rule foot_bounded [OF s]) simp_all
  have bh0: "foot h m f g h 0 \<subseteq> {..<length b0}" by (rule foot_bounded [OF s]) simp_all
  have bhh: "foot h m f g h h \<subseteq> {..<length b0}" by (rule foot_bounded [OF s]) simp_all
  have d1: "foot h m f g 0 0 \<inter> foot h m f g 0 h = {}" by (rule fd) (use False in simp_all)
  have d2: "foot h m f g 0 0 \<inter> foot h m f g h 0 = {}" by (rule fd) (use False in simp_all)
  have d3: "foot h m f g 0 h \<inter> foot h m f g h 0 = {}" by (rule fd) (use False in simp_all)
  have d4: "foot h m f g 0 0 \<inter> foot h m f g h h = {}" by (rule fd) (use False in simp_all)
  have d5: "foot h m f g 0 h \<inter> foot h m f g h h = {}" by (rule fd) (use False in simp_all)
  have d6: "foot h m f g h 0 \<inter> foot h m f g h h = {}" by (rule fd) (use False in simp_all)
  have m12: "moved (quad_rel h m f g 0 0 \<union> quad_rel h m f g 0 h) b0 b2"
  proof (rule moved_comp_footprint [OF m1 m2])
    show "fst ` quad_rel h m f g 0 0 \<subseteq> foot h m f g 0 0" by (simp add: fst_quad_rel)
    show "fst ` quad_rel h m f g 0 h \<subseteq> foot h m f g 0 h" by (simp add: fst_quad_rel)
    show "snd ` quad_rel h m f g 0 h \<subseteq> foot h m f g 0 h" by (simp add: snd_quad_rel)
    show "foot h m f g 0 0 \<inter> foot h m f g 0 h = {}" by (rule d1)
    show "foot h m f g 0 0 \<subseteq> {..<length b0}" by (rule b00)
    show "foot h m f g 0 h \<subseteq> {..<length b0}" by (rule b0h)
  qed
  have m123: "moved (quad_rel h m f g 0 0 \<union> quad_rel h m f g 0 h \<union> quad_rel h m f g h 0) b0 b3"
  proof (rule moved_comp_footprint [OF m12 m3])
    show "fst ` (quad_rel h m f g 0 0 \<union> quad_rel h m f g 0 h)
            \<subseteq> foot h m f g 0 0 \<union> foot h m f g 0 h" by (simp add: fst_quad_rel image_Un)
    show "fst ` quad_rel h m f g h 0 \<subseteq> foot h m f g h 0" by (simp add: fst_quad_rel)
    show "snd ` quad_rel h m f g h 0 \<subseteq> foot h m f g h 0" by (simp add: snd_quad_rel)
    show "(foot h m f g 0 0 \<union> foot h m f g 0 h) \<inter> foot h m f g h 0 = {}"
      using d2 d3 by (simp add: Int_Un_distrib2)
    show "foot h m f g 0 0 \<union> foot h m f g 0 h \<subseteq> {..<length b0}" using b00 b0h by simp
    show "foot h m f g h 0 \<subseteq> {..<length b0}" by (rule bh0)
  qed
  have "moved (quad_rel h m f g 0 0 \<union> quad_rel h m f g 0 h \<union> quad_rel h m f g h 0
                \<union> quad_rel h m f g h h) b0 b4"
  proof (rule moved_comp_footprint [OF m123 m4])
    show "fst ` (quad_rel h m f g 0 0 \<union> quad_rel h m f g 0 h \<union> quad_rel h m f g h 0)
            \<subseteq> foot h m f g 0 0 \<union> foot h m f g 0 h \<union> foot h m f g h 0"
      by (simp add: fst_quad_rel image_Un)
    show "fst ` quad_rel h m f g h h \<subseteq> foot h m f g h h" by (simp add: fst_quad_rel)
    show "snd ` quad_rel h m f g h h \<subseteq> foot h m f g h h" by (simp add: snd_quad_rel)
    show "(foot h m f g 0 0 \<union> foot h m f g 0 h \<union> foot h m f g h 0)
                       \<inter> foot h m f g h h = {}"
      using d4 d5 d6 by (simp add: Int_Un_distrib2)
    show "foot h m f g 0 0 \<union> foot h m f g 0 h \<union> foot h m f g h 0 \<subseteq> {..<length b0}"
      using b00 b0h bh0 by simp
    show "foot h m f g h h \<subseteq> {..<length b0}" by (rule bhh)
  qed
  then show ?thesis by (simp only: quad_rel_all)
qed

lemma moved_length: "moved R b b' \<Longrightarrow> length b' = length b"
  by (simp add: moved_def)

lemma swap_transpose_square_moved:
  fixes buf :: "'a list"
  assumes "shape a = [2 ^ k, 2 ^ k, m]" "shape b = [2 ^ k, 2 ^ k, m]"
    and "length (strides a) = 3" "length (strides b) = 3"
    and "sep (cube (2 ^ k) m) (posf a) (posf b) (length buf)"
  shows "\<exists>buf'. swap_transpose_square a b buf = Inr buf' \<and>
           moved (exch (cube (2 ^ k) m) (posf a) (posf b) \<union>
                  exch (cube (2 ^ k) m) (posf b) (posf a)) buf buf'"
  using assms
proof (induction k arbitrary: a b buf)
  case 0
  have "swap_transpose_square a b buf =
        (let a = sub_view (sub_view a 0) 0; b = sub_view (sub_view b 0) 0 in
         for_each [0..<m] (\<lambda>i buf.
           bind (getitem b i buf) (\<lambda>bi.
           bind (getitem a i buf) (\<lambda>ai.
           bind (setitem a i bi buf) (\<lambda>buf.
           setitem b i ai buf)))) buf)"
    using "0.prems"(1,2) by (subst swap_transpose_square.simps) simp
  moreover from swap_rows [of a m b buf] "0.prems"
  have "\<exists>buf'. (let a = sub_view (sub_view a 0) 0; b = sub_view (sub_view b 0) 0 in
         for_each [0..<m] (\<lambda>i buf.
           bind (getitem b i buf) (\<lambda>bi.
           bind (getitem a i buf) (\<lambda>ai.
           bind (setitem a i bi buf) (\<lambda>buf.
           setitem b i ai buf)))) buf) = Inr buf'
         \<and> moved (exch (cube 1 m) (posf a) (posf b) \<union> exch (cube 1 m) (posf b) (posf a)) buf buf'"
    by simp
  ultimately show ?case by simp
next
  case (Suc k)
  define h :: nat where "h = 2 ^ k"
  have h0: "h \<noteq> 0" by (simp add: h_def)
  have sa: "shape a = [2 * h, 2 * h, m]" and sb: "shape b = [2 * h, 2 * h, m]"
    using Suc.prems(1,2) by (simp_all add: h_def)
  have s: "sep (cube (2 * h) m) (posf a) (posf b) (length buf)"
    using Suc.prems(5) by (simp add: h_def)
  define a1 where "a1 = upto_ax 1 h (upto_ax 0 h a)"
  define b1 where "b1 = upto_ax 1 h (upto_ax 0 h b)"
  define a2 where "a2 = from_ax 1 h (upto_ax 0 h a)"
  define b2 where "b2 = upto_ax 1 h (from_ax 0 h b)"
  define a3 where "a3 = upto_ax 1 h (from_ax 0 h a)"
  define b3 where "b3 = from_ax 1 h (upto_ax 0 h b)"
  define a4 where "a4 = from_ax 1 h (from_ax 0 h a)"
  define b4 where "b4 = from_ax 1 h (from_ax 0 h b)"
  note qa = quadrant_views [OF sa] and qb = quadrant_views [OF sb]
  have unf: "swap_transpose_square a b buf =
      bind (swap_transpose_square a1 b1 buf) (\<lambda>buf.
      bind (swap_transpose_square a2 b2 buf) (\<lambda>buf.
      bind (swap_transpose_square a3 b3 buf) (\<lambda>buf.
      swap_transpose_square a4 b4 buf)))"
    using sa sb h0
    by (subst swap_transpose_square.simps)
      (simp add: drop_bit_eq_div a1_def b1_def a2_def b2_def a3_def b3_def a4_def b4_def)
  have ih: "\<exists>buf'. swap_transpose_square a' b' t = Inr buf' \<and>
              moved (quad_rel h m (posf a) (posf b) u v) t buf'"
    if "shape a' = [h, h, m]" "shape b' = [h, h, m]" "strides a' = strides a"
      "strides b' = strides b" "posf a' = posf a \<circ> shift u v" "posf b' = posf b \<circ> shift v u"
      "u \<in> {0, h}" "v \<in> {0, h}" "length t = length buf"
    for a' b' u v and t :: "'a list"
  proof -
    have "sep (cube h m) (posf a') (posf b') (length t)"
      using sep_quadrant [OF s that(7,8)] that(5,6,9) by simp
    from Suc.IH [of a' b' t] this that(1-4) Suc.prems(3,4)
    have "\<exists>buf'. swap_transpose_square a' b' t = Inr buf' \<and>
           moved (exch (cube h m) (posf a') (posf b') \<union>
                  exch (cube h m) (posf b') (posf a')) t buf'"
      by (simp add: h_def)
    then show ?thesis
      by (simp add: that(5,6) quad_rel_def exch_shift)
  qed
  from ih [of a1 b1 0 0 buf] obtain t1 where t1: "swap_transpose_square a1 b1 buf = Inr t1"
    "moved (quad_rel h m (posf a) (posf b) 0 0) buf t1"
    unfolding a1_def b1_def using qa qb by auto
  from ih [of a2 b2 0 h t1] obtain t2 where t2: "swap_transpose_square a2 b2 t1 = Inr t2"
    "moved (quad_rel h m (posf a) (posf b) 0 h) t1 t2"
    unfolding a2_def b2_def using qa qb moved_length [OF t1(2)] by auto
  from ih [of a3 b3 h 0 t2] obtain t3 where t3: "swap_transpose_square a3 b3 t2 = Inr t3"
    "moved (quad_rel h m (posf a) (posf b) h 0) t2 t3"
    unfolding a3_def b3_def using qa qb moved_length [OF t1(2)] moved_length [OF t2(2)] by auto
  from ih [of a4 b4 h h t3] obtain t4 where t4: "swap_transpose_square a4 b4 t3 = Inr t4"
    "moved (quad_rel h m (posf a) (posf b) h h) t3 t4"
    unfolding a4_def b4_def
    using qa qb moved_length [OF t1(2)] moved_length [OF t2(2)] moved_length [OF t3(2)] by auto
  have "moved (exch (cube (2 * h) m) (posf a) (posf b) \<union> exch (cube (2 * h) m) (posf b) (posf a))
          buf t4"
    by (rule four_moves [OF s t1(2) t2(2) t3(2) t4(2)])
  moreover have "swap_transpose_square a b buf = Inr t4"
    by (simp add: unf t1 t2 t3 t4)
  ultimately show ?case by (simp add: h_def)
qed

lemma moved_diag: "moved (exch (cube 1 m) f f) b b"
proof -
  have "tr t = t" if "t \<in> cube 1 m" for t
    using that by (cases t) (auto simp: cube_def tr_def)
  then show ?thesis by (auto simp: moved_def exch_def)
qed

lemma three_moves:
  assumes f: "inj_on f (cube (2 * h) m)" and bd: "f ` cube (2 * h) m \<subseteq> {..<length b0}"
    and h0: "h \<noteq> 0"
    and m1: "moved (exch (shift 0 0 ` cube h m) f f) b0 b1"
    and m2: "moved (exch (shift 0 h ` cube h m) f f \<union> exch (shift h 0 ` cube h m) f f) b1 b2"
    and m3: "moved (exch (shift h h ` cube h m) f f) b2 b3"
  shows "moved (exch (cube (2 * h) m) f f) b0 b3"
proof -
  define Q where "Q u v = f ` shift u v ` cube h m" for u v
  have sub: "Q u v \<subseteq> {..<length b0}" if "u \<in> {0, h}" "v \<in> {0, h}" for u v
    unfolding Q_def by (rule subset_trans [OF quadrant_image_subset [OF that] bd])
  have dis: "Q u v \<inter> Q u' v' = {}"
    if "(u, v) \<noteq> (u', v')" "u \<in> {0, h}" "v \<in> {0, h}" "u' \<in> {0, h}" "v' \<in> {0, h}" for u v u' v'
    unfolding Q_def by (rule quadrant_images_disjoint [OF f that])
  have fs: "fst ` exch (shift u v ` cube h m) f f = Q u v" for u v
    by (simp add: Q_def)
  have sn: "snd ` exch (shift u v ` cube h m) f f = Q v u" for u v
    by (simp add: Q_def tr_shift_cube)
  have d1: "Q 0 0 \<inter> Q 0 h = {}" "Q 0 0 \<inter> Q h 0 = {}" "Q 0 0 \<inter> Q h h = {}"
    "Q 0 h \<inter> Q h h = {}" "Q h 0 \<inter> Q h h = {}"
    by (rule dis; use h0 in simp)+
  have b: "Q 0 0 \<subseteq> {..<length b0}" "Q 0 h \<subseteq> {..<length b0}" "Q h 0 \<subseteq> {..<length b0}"
    "Q h h \<subseteq> {..<length b0}"
    by (rule sub; simp)+
  have m12: "moved (exch (shift 0 0 ` cube h m) f f \<union>
               (exch (shift 0 h ` cube h m) f f \<union> exch (shift h 0 ` cube h m) f f)) b0 b2"
  proof (rule moved_comp_footprint [OF m1 m2])
    show "fst ` exch (shift 0 0 ` cube h m) f f \<subseteq> Q 0 0" by (simp add: Q_def)
    show "fst ` (exch (shift 0 h ` cube h m) f f \<union> exch (shift h 0 ` cube h m) f f)
            \<subseteq> Q 0 h \<union> Q h 0" by (simp add: image_Un Q_def)
    show "snd ` (exch (shift 0 h ` cube h m) f f \<union> exch (shift h 0 ` cube h m) f f)
            \<subseteq> Q 0 h \<union> Q h 0" by (auto simp: image_Un Q_def tr_shift_cube)
    show "Q 0 0 \<inter> (Q 0 h \<union> Q h 0) = {}" using d1 by (simp add: Int_Un_distrib)
    show "Q 0 0 \<subseteq> {..<length b0}" by (rule b)
    show "Q 0 h \<union> Q h 0 \<subseteq> {..<length b0}" using b by simp
  qed
  have "moved (exch (shift 0 0 ` cube h m) f f \<union>
               (exch (shift 0 h ` cube h m) f f \<union> exch (shift h 0 ` cube h m) f f) \<union>
               exch (shift h h ` cube h m) f f) b0 b3"
  proof (rule moved_comp_footprint [OF m12 m3])
    show "fst ` (exch (shift 0 0 ` cube h m) f f \<union>
               (exch (shift 0 h ` cube h m) f f \<union> exch (shift h 0 ` cube h m) f f))
            \<subseteq> Q 0 0 \<union> (Q 0 h \<union> Q h 0)" by (simp add: image_Un Q_def)
    show "fst ` exch (shift h h ` cube h m) f f \<subseteq> Q h h" by (simp add: Q_def)
    show "snd ` exch (shift h h ` cube h m) f f \<subseteq> Q h h" by (simp add: Q_def tr_shift_cube)
    show "(Q 0 0 \<union> (Q 0 h \<union> Q h 0)) \<inter> Q h h = {}" using d1 by (simp add: Int_Un_distrib2)
    show "Q 0 0 \<union> (Q 0 h \<union> Q h 0) \<subseteq> {..<length b0}" using b by simp
    show "Q h h \<subseteq> {..<length b0}" by (rule b)
  qed
  then show ?thesis
    unfolding cube_quadrants exch_Un by (simp add: Un_ac)
qed

lemma transpose_square_moved:
  fixes buf :: "'a list"
  assumes "shape a = [2 ^ k, 2 ^ k, m]" "length (strides a) = 3"
    and "inj_on (posf a) (cube (2 ^ k) m)" "posf a ` cube (2 ^ k) m \<subseteq> {..<length buf}"
  shows "\<exists>buf'. transpose_square a buf = Inr buf' \<and>
           moved (exch (cube (2 ^ k) m) (posf a) (posf a)) buf buf'"
  using assms
proof (induction k arbitrary: a buf)
  case 0
  have "lb_exact 1 = Inr 0" using lb_exact_pow2 [of 0] by simp
  then have "transpose_square a buf = Inr buf"
    using "0.prems"(1) by (subst transpose_square.simps) simp
  then show ?case using moved_diag [of m "posf a" buf] by simp
next
  case (Suc k)
  define h :: nat where "h = 2 ^ k"
  have h0: "h \<noteq> 0" by (simp add: h_def)
  have sa: "shape a = [2 * h, 2 * h, m]" using Suc.prems(1) by (simp add: h_def)
  have inj: "inj_on (posf a) (cube (2 * h) m)" using Suc.prems(3) by (simp add: h_def)
  have bd: "posf a ` cube (2 * h) m \<subseteq> {..<length buf}" using Suc.prems(4) by (simp add: h_def)
  define a1 where "a1 = upto_ax 1 h (upto_ax 0 h a)"
  define a2 where "a2 = from_ax 1 h (upto_ax 0 h a)"
  define a3 where "a3 = upto_ax 1 h (from_ax 0 h a)"
  define a4 where "a4 = from_ax 1 h (from_ax 0 h a)"
  note qa = quadrant_views [OF sa]
  have "lb_exact (int (2 * h)) = Inr (Suc k)"
    using lb_exact_pow2 [of "Suc k"] by (simp add: h_def)
  then have unf: "transpose_square a buf =
      bind (transpose_square a1 buf) (\<lambda>buf.
      bind (swap_transpose_square a2 a3 buf) (\<lambda>buf.
      transpose_square a4 buf))"
    using sa h0
    by (subst transpose_square.simps)
      (simp add: drop_bit_eq_div a1_def a2_def a3_def a4_def)
  have sub: "shift u v ` cube h m \<subseteq> cube (2 * h) m" if "u \<in> {0, h}" "v \<in> {0, h}" for u v
    using that by (intro shift_cube_subset) auto
  have inj_q: "inj_on (posf a \<circ> shift u v) (cube h m)" if "u \<in> {0, h}" "v \<in> {0, h}" for u v
    by (rule comp_inj_on) (use inj_shift inj sub [OF that] in \<open>auto intro: inj_on_subset\<close>)
  have bd_q: "(posf a \<circ> shift u v) ` cube h m \<subseteq> {..<length buf}"
    if "u \<in> {0, h}" "v \<in> {0, h}" for u v
    using subset_trans [OF quadrant_image_subset [OF that] bd] by (simp add: image_comp)
  have ih: "\<exists>buf'. transpose_square a' t = Inr buf' \<and>
              moved (exch (shift u u ` cube h m) (posf a) (posf a)) t buf'"
    if "shape a' = [h, h, m]" "strides a' = strides a" "posf a' = posf a \<circ> shift u u"
      "u \<in> {0, h}" "length t = length buf"
    for a' u and t :: "'a list"
  proof -
    from Suc.IH [of a' t] that(1,2) Suc.prems(2) inj_q [OF that(4,4)] bd_q [OF that(4,4)]
    have "\<exists>buf'. transpose_square a' t = Inr buf' \<and>
           moved (exch (cube h m) (posf a') (posf a')) t buf'"
      by (simp add: h_def that(3,5) comp_def)
    then show ?thesis by (simp add: that(3) exch_shift)
  qed
  from ih [of a1 0 buf] obtain t1 where t1: "transpose_square a1 buf = Inr t1"
    "moved (exch (shift 0 0 ` cube h m) (posf a) (posf a)) buf t1"
    unfolding a1_def using qa by auto
  have l1: "length t1 = length buf" by (rule moved_length [OF t1(2)])
  have "sep (cube h m) (posf a2) (posf a3) (length t1)"
  proof -
    have "(posf a \<circ> shift 0 h) ` cube h m \<inter> (posf a \<circ> shift h 0) ` cube h m = {}"
      using quadrant_images_disjoint [OF inj, of 0 h h 0] h0 by (simp add: image_comp)
    then show ?thesis
      unfolding sep_def a2_def a3_def qa l1
      using inj_q [of 0 h] inj_q [of h 0] bd_q [of 0 h] bd_q [of h 0] by simp
  qed
  from swap_transpose_square_moved [of a2 k m a3 t1] this
  obtain t2 where t2: "swap_transpose_square a2 a3 t1 = Inr t2"
    "moved (exch (cube h m) (posf a2) (posf a3) \<union> exch (cube h m) (posf a3) (posf a2)) t1 t2"
    unfolding a2_def a3_def using qa Suc.prems(2) by (auto simp: h_def)
  have t2': "moved (exch (shift 0 h ` cube h m) (posf a) (posf a) \<union>
                    exch (shift h 0 ` cube h m) (posf a) (posf a)) t1 t2"
    using t2(2) unfolding a2_def a3_def qa by (simp add: exch_shift)
  have l2: "length t2 = length buf" using moved_length [OF t2(2)] l1 by simp
  from ih [of a4 h t2] obtain t3 where t3: "transpose_square a4 t2 = Inr t3"
    "moved (exch (shift h h ` cube h m) (posf a) (posf a)) t2 t3"
    unfolding a4_def using qa l2 by auto
  have "moved (exch (cube (2 * h) m) (posf a) (posf a)) buf t3"
    by (rule three_moves [OF inj bd h0 t1(2) t2' t3(2)])
  moreover have "transpose_square a buf = Inr t3"
    by (simp add: unf t1 t2 t3)
  ultimately show ?case by (simp add: h_def)
qed

text \<open>
  \<open>cells a\<close> lists the buffer positions of all elements of a three-dimensional view;
  \<open>view_ok a len\<close> says that they are pairwise distinct and inside a buffer of \<open>len\<close>
  elements, as for every view numpy makes by reshaping and slicing an array.
\<close>

definition cells :: "view \<Rightarrow> nat list" where
  "cells a =
     map (posf a)
       (List.product [0..<shape a ! 0] (List.product [0..<shape a ! 1] [0..<shape a ! 2]))"

definition view_ok :: "view \<Rightarrow> nat \<Rightarrow> bool" where
  "view_ok a len \<longleftrightarrow>
     length (shape a) = 3 \<and> length (strides a) = 3 \<and> distinct (cells a) \<and>
     list_all (\<lambda>p. p < len) (cells a)"

lemma view_ok_cube:
  assumes "view_ok a len" "shape a = [n, n, m]"
  shows "inj_on (posf a) (cube n m)" and "posf a ` cube n m \<subseteq> {..<len}"
    and "set (cells a) = posf a ` cube n m"
proof -
  have c: "set (List.product [0..<n] (List.product [0..<n] [0..<m])) = cube n m"
    by (simp add: cube_def)
  from assms show "inj_on (posf a) (cube n m)"
    unfolding view_ok_def cells_def by (simp add: distinct_map cube_def)
  from assms show "posf a ` cube n m \<subseteq> {..<len}"
    unfolding view_ok_def cells_def by (auto simp: list_all_iff cube_def)
  from assms show "set (cells a) = posf a ` cube n m"
    unfolding cells_def by (simp add: cube_def)
qed

lemma for_each_total:
  "(\<And>i s. i \<in> set xs \<Longrightarrow> \<exists>s'. body i s = Inr s') \<Longrightarrow> \<exists>s'. for_each xs body s = Inr s'"
proof (induction xs arbitrary: s)
  case Nil
  then show ?case by simp
next
  case (Cons x xs)
  from Cons.prems [of x s] obtain s1 where "body x s = Inr s1" by auto
  moreover from Cons.IH [of s1] Cons.prems obtain s2 where "for_each xs body s1 = Inr s2"
    by auto
  ultimately show ?case by simp
qed

lemma swap_transpose_square_accepts:
  fixes buf :: "'a list"
  assumes "shape a = [2 ^ k, 2 ^ k, m]" "shape b = [2 ^ k, 2 ^ k, m]"
  shows "\<exists>buf'. swap_transpose_square a b buf = Inr buf'"
  using assms
proof (induction k arbitrary: a b buf)
  case 0
  define a' where "a' = sub_view (sub_view a 0) 0"
  define b' where "b' = sub_view (sub_view b 0) 0"
  have s: "shape a' = [m]" "shape b' = [m]"
    using "0.prems" by (simp_all add: a'_def b'_def sub_view_def)
  have "\<exists>buf'. for_each [0..<m] (\<lambda>i buf.
           bind (getitem b' i buf) (\<lambda>bi.
           bind (getitem a' i buf) (\<lambda>ai.
           bind (setitem a' i bi buf) (\<lambda>buf.
           setitem b' i ai buf)))) buf = Inr buf'"
    by (rule for_each_total) (simp add: getitem_1d [OF s(1)] getitem_1d [OF s(2)]
        setitem_1d [OF s(1)] setitem_1d [OF s(2)])
  then show ?case
    using "0.prems" by (subst swap_transpose_square.simps) (simp add: a'_def b'_def Let_def)
next
  case (Suc k)
  define h :: nat where "h = 2 ^ k"
  have h0: "h \<noteq> 0" by (simp add: h_def)
  have sa: "shape a = [2 * h, 2 * h, m]" and sb: "shape b = [2 * h, 2 * h, m]"
    using Suc.prems(1,2) by (simp_all add: h_def)
  note qa = quadrant_views(1-4) [OF sa] and qb = quadrant_views(1-4) [OF sb]
  note ih = Suc.IH [unfolded h_def [symmetric]]
  from ih [OF qa(1) qb(1)] obtain t1 where
    t1: "swap_transpose_square (upto_ax 1 h (upto_ax 0 h a)) (upto_ax 1 h (upto_ax 0 h b)) buf = Inr t1"
    by blast
  from ih [OF qa(2) qb(3)] obtain t2 where
    t2: "swap_transpose_square (from_ax 1 h (upto_ax 0 h a)) (upto_ax 1 h (from_ax 0 h b)) t1 = Inr t2"
    by blast
  from ih [OF qa(3) qb(2)] obtain t3 where
    t3: "swap_transpose_square (upto_ax 1 h (from_ax 0 h a)) (from_ax 1 h (upto_ax 0 h b)) t2 = Inr t3"
    by blast
  from ih [OF qa(4) qb(4)] obtain t4 where
    t4: "swap_transpose_square (from_ax 1 h (from_ax 0 h a)) (from_ax 1 h (from_ax 0 h b)) t3 = Inr t4"
    by blast
  show ?case
    using sa sb h0 t1 t2 t3 t4
    by (subst swap_transpose_square.simps) (simp add: drop_bit_eq_div)
qed

lemma transpose_square_accepts_pow2:
  fixes buf :: "'a list"
  assumes "shape a = [2 ^ k, 2 ^ k, m]"
  shows "\<exists>buf'. transpose_square a buf = Inr buf'"
  using assms
proof (induction k arbitrary: a buf)
  case 0
  have "lb_exact 1 = Inr 0" using lb_exact_pow2 [of 0] by simp
  then show ?case
    using "0.prems"(1) by (subst transpose_square.simps) simp
next
  case (Suc k)
  define h :: nat where "h = 2 ^ k"
  have h0: "h \<noteq> 0" by (simp add: h_def)
  have sa: "shape a = [2 * h, 2 * h, m]" using Suc.prems(1) by (simp add: h_def)
  note qa = quadrant_views(1-4) [OF sa]
  note ih = Suc.IH [unfolded h_def [symmetric]]
  have lb: "lb_exact (int (2 * h)) = Inr (Suc k)"
    using lb_exact_pow2 [of "Suc k"] by (simp add: h_def)
  from ih [OF qa(1)] obtain t1 where
    t1: "transpose_square (upto_ax 1 h (upto_ax 0 h a)) buf = Inr t1" by blast
  from swap_transpose_square_accepts [of _ k m, unfolded h_def [symmetric], OF qa(2) qa(3)]
  obtain t2 where
    t2: "swap_transpose_square (from_ax 1 h (upto_ax 0 h a)) (upto_ax 1 h (from_ax 0 h a)) t1 = Inr t2"
    by blast
  from ih [OF qa(4)] obtain t3 where
    t3: "transpose_square (from_ax 1 h (from_ax 0 h a)) t2 = Inr t3" by blast
  show ?case
    using sa h0 lb t1 t2 t3
    by (subst transpose_square.simps) (simp add: drop_bit_eq_div)
qed

lemma transpose_square_involution:
  assumes m1: "moved (exch (cube n m) f f) b0 b1" and m2: "moved (exch (cube n m) f f) b1 b2"
  shows "b2 = b0"
proof (rule nth_equalityI)
  show "length b2 = length b0" using m1 m2 by (simp add: moved_def)
next
  fix p assume "p < length b2"
  then have p: "p < length b0" "p < length b1" using m1 m2 by (simp_all add: moved_def)
  show "b2 ! p = b0 ! p"
  proof (cases "p \<in> f ` cube n m")
    case True
    then obtain t where t: "t \<in> cube n m" "p = f t" by blast
    then have t': "tr t \<in> cube n m" using tr_cube [of n m] by blast
    from t have "(f t, f (tr t)) \<in> exch (cube n m) f f" by (auto simp: exch_def)
    with m2 have "b2 ! f t = b1 ! f (tr t)" by (auto simp: moved_def)
    moreover from t' have "(f (tr t), f (tr (tr t))) \<in> exch (cube n m) f f"
      unfolding exch_def by (rule imageI [of _ _ "\<lambda>t. (f t, f (tr t))"])
    with m1 have "b1 ! f (tr t) = b0 ! f t" by (auto simp: moved_def)
    ultimately show ?thesis by (simp add: t)
  next
    case False
    then have "p \<notin> fst ` exch (cube n m) f f" by simp
    with p m1 m2 show ?thesis by (simp add: moved_def)
  qed
qed

text \<open>
  Claim C6: on a view of shape \<open>(n, n, m)\<close> with \<open>n = 2 ^ k\<close>, \<open>transpose_square\<close> succeeds,
  element \<open>l\<close> of the group at \<open>(i, j)\<close> ends as element \<open>l\<close> of the group at \<open>(j, i)\<close>,
  nothing outside the view changes, and a second call restores the buffer.
\<close>

theorem transpose_square_spec:
  fixes buf :: "'a list"
  assumes "shape a = [2 ^ k, 2 ^ k, m]" "view_ok a (length buf)"
  shows "\<exists>buf'. transpose_square a buf = Inr buf' \<and> length buf' = length buf \<and>
           (\<forall>i<2 ^ k. \<forall>j<2 ^ k. \<forall>l<m. buf' ! posf a (j, i, l) = buf ! posf a (i, j, l)) \<and>
           (\<forall>p<length buf. p \<notin> set (cells a) \<longrightarrow> buf' ! p = buf ! p) \<and>
           transpose_square a buf' = Inr buf"
proof -
  note vc = view_ok_cube [OF assms(2,1)]
  from assms(2) have st: "length (strides a) = 3" by (simp add: view_ok_def)
  from transpose_square_moved [OF assms(1) st vc(1,2)]
  obtain buf' where r: "transpose_square a buf = Inr buf'"
    and mv: "moved (exch (cube (2 ^ k) m) (posf a) (posf a)) buf buf'" by blast
  have len: "length buf' = length buf" by (rule moved_length [OF mv])
  from transpose_square_moved [OF assms(1) st vc(1), of buf'] vc(2) len
  obtain buf'' where r2: "transpose_square a buf' = Inr buf''"
    and mv2: "moved (exch (cube (2 ^ k) m) (posf a) (posf a)) buf' buf''" by auto
  have bk: "buf'' = buf" by (rule transpose_square_involution [OF mv mv2])
  have pt: "buf' ! posf a (j, i, l) = buf ! posf a (i, j, l)"
    if "i < 2 ^ k" "j < 2 ^ k" "l < m" for i j l
  proof -
    from that have "(j, i, l) \<in> cube (2 ^ k) m" by (simp add: cube_def)
    then have "(posf a (j, i, l), posf a (tr (j, i, l))) \<in> exch (cube (2 ^ k) m) (posf a) (posf a)"
      unfolding exch_def by (rule imageI [of _ _ "\<lambda>t. (posf a t, posf a (tr t))"])
    with mv show ?thesis by (auto simp: moved_def tr_def)
  qed
  have fr: "buf' ! p = buf ! p" if "p < length buf" "p \<notin> set (cells a)" for p
    using that mv vc(3) by (simp add: moved_def)
  from r len pt fr r2 bk show ?thesis by blast
qed

theorem transpose_square_spec_witness:
  "shape (full_view [2, 2, 2]) = [2 ^ 1, 2 ^ 1, 2] \<and>
   view_ok (full_view [2, 2, 2]) (length [10, 11, 20, 21, 30, 31, 40, 41 :: nat]) \<and>
   transpose_square (full_view [2, 2, 2]) [10, 11, 20, 21, 30, 31, 40, 41 :: nat]
     = Inr [10, 11, 30, 31, 20, 21, 40, 41] \<and>
   transpose_square (full_view [2, 2, 2]) [10, 11, 30, 31, 20, 21, 40, 41 :: nat]
     = Inr [10, 11, 20, 21, 30, 31, 40, 41]"
proof -
  have h1: "shape (full_view [2, 2, 2]) = [2 ^ 1, 2 ^ 1, 2]" by (simp add: full_view_def)
  have h2: "view_ok (full_view [2, 2, 2]) (length [10, 11, 20, 21, 30, 31, 40, 41 :: nat])"
    by code_simp
  have e: "transpose_square (full_view [2, 2, 2]) [10, 11, 20, 21, 30, 31, 40, 41 :: nat]
     = Inr [10, 11, 30, 31, 20, 21, 40, 41]" by code_simp
  from transpose_square_spec [OF h1 h2] e
  have "transpose_square (full_view [2, 2, 2]) [10, 11, 30, 31, 20, 21, 40, 41 :: nat]
     = Inr [10, 11, 20, 21, 30, 31, 40, 41]" by auto
  with h1 h2 e show ?thesis by blast
qed

text \<open>
  Claim C7 as stated says \<open>n = 0\<close> is accepted as a no-op; \<open>lb_exact\<close> rejects it.
\<close>

theorem transpose_square_empty_rejected:
  "transpose_square (full_view [0, 0, 3]) ([] :: nat list) = Inl (NotPowerOfTwo 0)"
  by code_simp

text \<open>
  Claim C7, as the code has it: \<open>transpose_square\<close> accepts every view of shape
  \<open>(n, n, m)\<close> with \<open>n\<close> a power of two, for \<open>n = 1\<close> it returns with the buffer unchanged,
  and for \<open>n = 0\<close> it raises the error of \<open>lb_exact\<close>.
\<close>

theorem transpose_square_accepts:
  fixes buf :: "'a list"
  assumes "shape a = [n, n, m]"
  shows "(n = 0 \<longrightarrow> transpose_square a buf = Inl (NotPowerOfTwo 0)) \<and>
         (n = 1 \<longrightarrow> transpose_square a buf = Inr buf) \<and>
         ((\<exists>k. n = 2 ^ k) \<longrightarrow> (\<exists>buf'. transpose_square a buf = Inr buf'))"
proof (intro conjI impI)
  assume "n = 0"
  moreover have "lb_exact 0 = Inl (NotPowerOfTwo 0)"
    by (simp add: lb_exact_def bit_length_def)
  ultimately show "transpose_square a buf = Inl (NotPowerOfTwo 0)"
    using assms by (subst transpose_square.simps) simp
next
  assume "n = 1"
  moreover have "lb_exact 1 = Inr 0" using lb_exact_pow2 [of 0] by simp
  ultimately show "transpose_square a buf = Inr buf"
    using assms by (subst transpose_square.simps) simp
next
  assume "\<exists>k. n = 2 ^ k"
  then obtain k where "n = 2 ^ k" ..
  with assms show "\<exists>buf'. transpose_square a buf = Inr buf'"
    using transpose_square_accepts_pow2 [of a k m buf] by simp
qed

theorem transpose_square_accepts_witness:
  "shape (full_view [1, 1, 3]) = [1, 1, 3] \<and> (1 :: nat) = 1 \<and> (\<exists>k. (1 :: nat) = 2 ^ k) \<and>
   transpose_square (full_view [1, 1, 3]) [7, 8, 9 :: nat] = Inr [7, 8, 9] \<and>
   shape (full_view [0, 0, 3]) = [0, 0, 3] \<and>
   transpose_square (full_view [0, 0, 3]) ([] :: nat list) = Inl (NotPowerOfTwo 0)"
proof -
  have h1: "shape (full_view [1, 1, 3]) = [1, 1, 3]" by (simp add: full_view_def)
  have h0: "shape (full_view [0, 0, 3]) = [0, 0, 3]" by (simp add: full_view_def)
  have p: "\<exists>k. (1 :: nat) = 2 ^ k" by (rule exI [of _ 0]) simp
  from transpose_square_accepts [OF h1, of "[7, 8, 9 :: nat]"]
  have "transpose_square (full_view [1, 1, 3]) [7, 8, 9 :: nat] = Inr [7, 8, 9]" by simp
  moreover from transpose_square_accepts [OF h0, of "[] :: nat list"]
  have "transpose_square (full_view [0, 0, 3]) ([] :: nat list) = Inl (NotPowerOfTwo 0)" by simp
  ultimately show ?thesis using h1 h0 p by simp
qed

section \<open>The discrete Fourier transform\<close>

text \<open>
  The forward discrete Fourier transform as the sum
  \<open>result[k] = \<Sum>n<N. x[n] * exp (- 2 * pi * \<i> * k * n / N)\<close>: the specification the
  code is compared with.
\<close>

definition dft :: "complex list \<Rightarrow> complex list" where
  "dft xs =
     map (\<lambda>k. \<Sum>n<length xs.
            xs ! n * exp (- (2 * of_real pi * \<i> * of_nat k * of_nat n / of_nat (length xs))))
       [0..<length xs]"

lemma twiddle_cis: "twiddle e N = cis (- (2 * pi * real e / real N))"
  by (simp add: twiddle_def cis_conv_exp algebra_simps)

lemma twiddle_add: "twiddle (d + e) N = twiddle d N * twiddle e N"
  by (simp add: twiddle_cis cis_mult add_divide_distrib distrib_left)

lemma twiddle_cancel: "0 < c \<Longrightarrow> twiddle (e * c) (N * c) = twiddle e N"
proof -
  assume "0 < c"
  then have "2 * pi * real (e * c) / real (N * c) = 2 * pi * real e / real N" by simp
  then show ?thesis by (simp only: twiddle_cis)
qed

lemma twiddle_period: "0 < N \<Longrightarrow> twiddle (N * e) N = 1"
proof -
  assume "0 < N"
  then have "- (2 * pi * real (N * e) / real N) = 2 * pi * (- real e)" by simp
  moreover have "cis (2 * pi * (- real e)) = 1"
    by (rule cis_multiple_2pi) simp
  ultimately show ?thesis by (simp only: twiddle_cis)
qed

lemma twiddle_0 [simp]: "twiddle 0 N = 1"
  by (simp add: twiddle_def)

lemma length_dft [simp]: "length (dft xs) = length xs"
  by (simp add: dft_def)

lemma nth_dft:
  "k < length xs \<Longrightarrow> dft xs ! k = (\<Sum>n<length xs. xs ! n * twiddle (k * n) (length xs))"
  by (simp add: dft_def twiddle_def algebra_simps)

lemma sum_rows_cols:
  fixes f :: "nat \<Rightarrow> complex"
  shows "(\<Sum>n<R * C. f n) = (\<Sum>c<C. \<Sum>r<R. f (r * C + c))"
proof -
  have "(\<Sum>n<R * C. f n) = (\<Sum>r<R. sum f {r * C..<r * C + C})"
    by (rule sum.nat_group [symmetric])
  also have "\<dots> = (\<Sum>r<R. \<Sum>c<C. f (r * C + c))"
  proof (rule sum.cong [OF refl])
    fix r
    have "{r * C..<r * C + C} = {0 + r * C..<C + r * C}" by (simp add: add.commute)
    then have "sum f {r * C..<r * C + C} = (\<Sum>c = 0..<C. f (c + r * C))"
      by (simp only: sum.shift_bounds_nat_ivl)
    then show "sum f {r * C..<r * C + C} = (\<Sum>c<C. f (r * C + c))"
      by (simp add: atLeast0LessThan add.commute)
  qed
  also have "\<dots> = (\<Sum>c<C. \<Sum>r<R. f (r * C + c))"
    by (rule sum.swap)
  finally show ?thesis .
qed

lemma twiddle_split:
  assumes "0 < R" "0 < C"
  shows "twiddle ((k2 * R + k1) * (r * C + c)) (R * C)
         = twiddle (c * k2) C * (twiddle (c * k1) (R * C) * twiddle (r * k1) R)"
proof -
  have "(k2 * R + k1) * (r * C + c) = (R * C) * (k2 * r) + ((c * k2) * R + ((r * k1) * C + c * k1))"
    by (simp add: algebra_simps)
  then have "twiddle ((k2 * R + k1) * (r * C + c)) (R * C)
        = twiddle ((R * C) * (k2 * r)) (R * C) *
          (twiddle ((c * k2) * R) (R * C) * (twiddle ((r * k1) * C) (R * C) * twiddle (c * k1) (R * C)))"
    by (simp only: twiddle_add)
  moreover have "twiddle ((R * C) * (k2 * r)) (R * C) = 1"
    using assms by (intro twiddle_period) simp
  moreover have "twiddle ((c * k2) * R) (R * C) = twiddle (c * k2) C"
    using twiddle_cancel [OF assms(1), of "c * k2" C] by (simp add: mult.commute)
  moreover have "twiddle ((r * k1) * C) (R * C) = twiddle (r * k1) R"
    using twiddle_cancel [OF assms(2), of "r * k1" R] by simp
  ultimately show ?thesis by (simp add: mult_ac)
qed

lemma dft_split:
  assumes "length xs = R * C" "0 < R" "0 < C" "k1 < R" "k2 < C"
  shows "dft xs ! (k2 * R + k1)
         = (\<Sum>c<C. twiddle (c * k2) C *
              (twiddle (c * k1) (R * C) * (\<Sum>r<R. xs ! (r * C + c) * twiddle (r * k1) R)))"
proof -
  have "k2 * R + k1 < R * C"
  proof -
    have "k2 * R + k1 < k2 * R + R" using assms(4) by simp
    also have "\<dots> = (k2 + 1) * R" by simp
    also have "\<dots> \<le> C * R" using assms(5) by (intro mult_le_mono1) simp
    finally show ?thesis by (simp add: mult.commute)
  qed
  then have "dft xs ! (k2 * R + k1)
      = (\<Sum>n<R * C. xs ! n * twiddle ((k2 * R + k1) * n) (R * C))"
    using assms(1) by (simp add: nth_dft)
  also have "\<dots> = (\<Sum>c<C. \<Sum>r<R. xs ! (r * C + c) * twiddle ((k2 * R + k1) * (r * C + c)) (R * C))"
    by (rule sum_rows_cols)
  also have "\<dots> = (\<Sum>c<C. \<Sum>r<R. twiddle (c * k2) C *
              (twiddle (c * k1) (R * C) * (xs ! (r * C + c) * twiddle (r * k1) R)))"
    by (simp only: twiddle_split [OF assms(2,3)]) (simp add: mult_ac)
  also have "\<dots> = (\<Sum>c<C. twiddle (c * k2) C *
              (twiddle (c * k1) (R * C) * (\<Sum>r<R. xs ! (r * C + c) * twiddle (r * k1) R)))"
    by (simp add: sum_distrib_left)
  finally show ?thesis .
qed

section \<open>Blocks, rows and transposes as list functions\<close>

lemma slice_patch_after:
  "off + length A + c \<le> length buf \<Longrightarrow>
   slice (patch buf off A) (off + length A) c = slice buf (off + length A) c"
  by (simp add: slice_def patch_def)

lemma patch_patch_append:
  assumes "off + length A + length X \<le> length buf"
  shows "patch (patch buf off A) (off + length A) X = patch buf off (A @ X)"
proof -
  have "take off buf @ A @ drop (off + length A) buf = patch buf off A"
    by (simp add: patch_def)
  have l: "length (take off buf) = off" using assms by simp
  have "take (off + length A) (patch buf off A) = take off buf @ A"
    using l by (simp add: patch_def)
  moreover have "drop (off + length A + length X) (patch buf off A)
      = drop (off + length A + length X) buf"
    using l assms by (simp add: patch_def ac_simps)
  ultimately show ?thesis by (simp add: patch_def [of "patch buf off A"] patch_def [of buf off "A @ X"] add.assoc)
qed

lemma slice_slice:
  "t + c \<le> n \<Longrightarrow> off + n \<le> length buf \<Longrightarrow> slice (slice buf off n) t c = slice buf (off + t) c"
proof (rule nth_equalityI)
  assume h: "t + c \<le> n" "off + n \<le> length buf"
  then show "length (slice (slice buf off n) t c) = length (slice buf (off + t) c)" by simp
  fix i assume "i < length (slice (slice buf off n) t c)"
  with h have "i < c" by simp
  with h show "slice (slice buf off n) t c ! i = slice buf (off + t) c ! i"
    by (simp add: add.assoc)
qed

lemma patch_patch_inner:
  assumes "d + length Z \<le> length Y" "off + length Y \<le> length buf"
  shows "patch (patch buf off Y) (off + d) Z = patch buf off (patch Y d Z)"
proof (rule nth_equalityI)
  show "length (patch (patch buf off Y) (off + d) Z) = length (patch buf off (patch Y d Z))"
    using assms by simp
next
  fix q assume "q < length (patch (patch buf off Y) (off + d) Z)"
  then have q: "q < length buf" using assms by simp
  have l1: "off + d + length Z \<le> length (patch buf off Y)" using assms by simp
  have l2: "off + length (patch Y d Z) \<le> length buf" using assms by simp
  have q1: "q < length (patch buf off Y)" using assms q by simp
  have L: "patch (patch buf off Y) (off + d) Z ! q
        = (if off + d \<le> q \<and> q < off + d + length Z then Z ! (q - (off + d))
           else if off \<le> q \<and> q < off + length Y then Y ! (q - off) else buf ! q)"
    using nth_patch [OF l1 q1] nth_patch [OF assms(2) q] by simp
  have R: "patch buf off (patch Y d Z) ! q
        = (if off \<le> q \<and> q < off + length Y then patch Y d Z ! (q - off) else buf ! q)"
    using nth_patch [OF l2 q] assms by simp
  show "patch (patch buf off Y) (off + d) Z ! q = patch buf off (patch Y d Z) ! q"
  proof (cases "off \<le> q \<and> q < off + length Y")
    case True
    then have qy: "q - off < length Y" by linarith
    have "patch Y d Z ! (q - off)
        = (if d \<le> q - off \<and> q - off < d + length Z then Z ! (q - off - d) else Y ! (q - off))"
      using nth_patch [OF assms(1) qy] by simp
    moreover have "q - (off + d) = q - off - d" by simp
    moreover have "off + d \<le> q \<and> q < off + d + length Z \<longleftrightarrow>
        d \<le> q - off \<and> q - off < d + length Z" using True by linarith
    ultimately show ?thesis using True unfolding L R by simp
  next
    case False
    then have "\<not> (off + d \<le> q \<and> q < off + d + length Z)" using assms(1) by linarith
    then have c2: "(off + d \<le> q \<and> q < off + d + length Z) = False" by (rule eq_False [THEN iffD2])
    from False have c1: "(off \<le> q \<and> q < off + length Y) = False" by simp
    show ?thesis unfolding L R c1 c2 by simp
  qed
qed

lemma slice_patch_inner:
  assumes "d + k \<le> length Y" "off + length Y \<le> length buf"
  shows "slice (patch buf off Y) (off + d) k = slice Y d k"
proof (rule nth_equalityI)
  show "length (slice (patch buf off Y) (off + d) k) = length (slice Y d k)"
    using assms by simp
next
  fix i assume "i < length (slice (patch buf off Y) (off + d) k)"
  then have i: "i < k" using assms by simp
  then have "off + d + i < length buf" "off \<le> off + d + i" "off + d + i < off + length Y"
    "off + d + i - off = d + i"
    using assms by simp_all
  then show "slice (patch buf off Y) (off + d) k ! i = slice Y d k ! i"
    using assms i by (simp add: nth_patch)
qed

lemma idx2_less: "a < A \<Longrightarrow> b < B \<Longrightarrow> a * B + b < A * (B::nat)"
proof -
  assume h: "a < A" "b < B"
  then have "a * B + b < a * B + B" by simp
  also have "\<dots> = (a + 1) * B" by simp
  also have "\<dots> \<le> A * B" using h(1) by (intro mult_le_mono1) simp
  finally show ?thesis .
qed

lemma length_concat_chunks:
  "(\<And>i. i < r \<Longrightarrow> length (f i) = c) \<Longrightarrow> length (concat (map f [0..<r])) = r * c"
  by (induction r) simp_all

lemma nth_concat_chunks:
  "(\<And>i. i < r \<Longrightarrow> length (f i) = c) \<Longrightarrow> i < r \<Longrightarrow> j < c \<Longrightarrow>
   concat (map f [0..<r]) ! (i * c + j) = f i ! j"
proof (induction r)
  case 0
  then show ?case by simp
next
  case (Suc r)
  have len: "length (concat (map f [0..<r])) = r * c"
    using Suc.prems(1) by (intro length_concat_chunks) simp
  show ?case
  proof (cases "i < r")
    case True
    then have "i * c + j < r * c" using Suc.prems(3) by (rule idx2_less)
    moreover have "concat (map f [0..<r]) ! (i * c + j) = f i ! j"
      using True Suc.prems(1,3) by (intro Suc.IH) simp_all
    ultimately show ?thesis using len by (simp add: nth_append)
  next
    case False
    with Suc.prems(2) have "i = r" by simp
    then show ?thesis using len by (simp add: nth_append)
  qed
qed

text \<open>\<open>rows_map c G r B\<close> applies \<open>G i\<close> to the \<open>i\<close>-th of the \<open>r\<close> rows of length \<open>c\<close> of \<open>B\<close>.\<close>

definition rows_map :: "nat \<Rightarrow> (nat \<Rightarrow> 'a list \<Rightarrow> 'a list) \<Rightarrow> nat \<Rightarrow> 'a list \<Rightarrow> 'a list" where
  "rows_map c G r B = concat (map (\<lambda>i. G i (slice B (i * c) c)) [0..<r])"

lemma length_rows_map:
  "(\<And>i. i < r \<Longrightarrow> length (G i (slice B (i * c) c)) = c) \<Longrightarrow> length (rows_map c G r B) = r * c"
  unfolding rows_map_def by (rule length_concat_chunks)

lemma nth_rows_map:
  "(\<And>i. i < r \<Longrightarrow> length (G i (slice B (i * c) c)) = c) \<Longrightarrow> i < r \<Longrightarrow> j < c \<Longrightarrow>
   rows_map c G r B ! (i * c + j) = G i (slice B (i * c) c) ! j"
  unfolding rows_map_def by (rule nth_concat_chunks)

lemma rows_loop:
  fixes buf :: "'a list"
  assumes bound: "off + r * c \<le> length buf" and Q: "Q s"
    and body: "\<And>i b s. i < r \<Longrightarrow> length b = length buf \<Longrightarrow> Q s \<Longrightarrow>
        \<exists>s'. body i (b, s) = Inr (patch b (off + i * c) (G i (slice b (off + i * c) c)), s') \<and> Q s'"
    and Glen: "\<And>i xs. i < r \<Longrightarrow> length xs = c \<Longrightarrow> length (G i xs) = c"
  shows "\<exists>s'. for_each [0..<r] body (buf, s)
           = Inr (patch buf off (rows_map c G r (slice buf off (r * c))), s') \<and> Q s'"
proof -
  define A where "A i = concat (map (\<lambda>t. G t (slice buf (off + t * c) c)) [0..<i])" for i
  define P where "P i st \<longleftrightarrow> (case st of (b, s') \<Rightarrow> Q s' \<and> b = patch buf off (A i))"
    for i and st :: "'a list \<times> 'b"
  have chunk: "off + t * c + c \<le> length buf" if "t < r" for t
  proof -
    have "t * c + c = (t + 1) * c" by simp
    also have "\<dots> \<le> r * c" using that by (intro mult_le_mono1) simp
    finally show ?thesis using bound by simp
  qed
  have lenG: "length (G t (slice buf (off + t * c) c)) = c" if "t < r" for t
    using that chunk [OF that] by (intro Glen) simp_all
  have lenA: "length (A i) = i * c" if "i \<le> r" for i
    unfolding A_def using that by (intro length_concat_chunks lenG) simp
  have "\<exists>st'. for_each [0..<r] body (buf, s) = Inr st' \<and> P r st'"
  proof (rule for_each_invariant)
    show "P 0 (buf, s)" using Q by (simp add: P_def A_def patch_def)
  next
    fix i st assume i: "i < r" and Pst: "P i st"
    obtain b s1 where st: "st = (b, s1)" by (cases st)
    with Pst have Q1: "Q s1" and b: "b = patch buf off (A i)" by (simp_all add: P_def)
    have lA: "length (A i) = i * c" using i by (intro lenA) simp
    have "i * c \<le> r * c" using i by (intro mult_le_mono1) simp
    then have bA: "off + length (A i) \<le> length buf" using bound lA by linarith
    have lb: "length b = length buf" unfolding b by (rule length_patch [OF bA])
    from body [OF i lb Q1] obtain s2 where
      step: "body i (b, s1) = Inr (patch b (off + i * c) (G i (slice b (off + i * c) c)), s2)"
      and Q2: "Q s2" by blast
    have sl: "slice b (off + i * c) c = slice buf (off + i * c) c"
      using slice_patch_after [of off "A i" c buf] chunk [OF i] lA by (simp add: b)
    have "patch b (off + i * c) (G i (slice buf (off + i * c) c)) = patch buf off (A (Suc i))"
      using patch_patch_append [of off "A i" "G i (slice buf (off + i * c) c)" buf] lA
        lenG [OF i] chunk [OF i]
      by (simp add: b A_def)
    then have "patch b (off + i * c) (G i (slice b (off + i * c) c)) = patch buf off (A (Suc i))"
      by (simp only: sl)
    with step Q2 show "\<exists>t'. body i st = Inr t' \<and> P (Suc i) t'"
      by (simp add: st P_def)
  qed
  then obtain s' where r: "for_each [0..<r] body (buf, s) = Inr (patch buf off (A r), s')"
    and Qs: "Q s'" by (auto simp: P_def)
  have "A r = rows_map c G r (slice buf off (r * c))"
    unfolding A_def rows_map_def
  proof (intro arg_cong [where f = concat] map_cong refl)
    fix t assume "t \<in> set [0..<r]"
    then have t: "t < r" by simp
    have "t * c + c = (t + 1) * c" by simp
    also have "\<dots> \<le> r * c" using t by (intro mult_le_mono1) simp
    finally have "slice (slice buf off (r * c)) (t * c) c = slice buf (off + t * c) c"
      using bound by (intro slice_slice) simp_all
    then show "G t (slice buf (off + t * c) c) = G t (slice (slice buf off (r * c)) (t * c) c)"
      by simp
  qed
  with r Qs show ?thesis by auto
qed

text \<open>
  The transpose of an \<open>n \<times> n\<close> matrix of groups of \<open>m\<close> elements, stored row by row in a
  list.
\<close>

definition transposed :: "nat \<Rightarrow> nat \<Rightarrow> 'a list \<Rightarrow> 'a list" where
  "transposed n m B =
     map (\<lambda>q. B ! ((q div m mod n * n + q div (m * n)) * m + q mod m)) [0..<n * n * m]"

lemma length_transposed [simp]: "length (transposed n m B) = n * n * m"
  by (simp add: transposed_def)

lemma idx3_less: "i < n \<Longrightarrow> j < n \<Longrightarrow> l < m \<Longrightarrow> (i * n + j) * m + l < n * n * (m::nat)"
  by (intro idx2_less) simp_all

lemma idx3_decode:
  assumes "i < n" "j < n" "l < (m::nat)"
  shows "((i * n + j) * m + l) mod m = l" "((i * n + j) * m + l) div m mod n = j"
    "((i * n + j) * m + l) div (m * n) = i"
proof -
  show "((i * n + j) * m + l) mod m = l" using assms(3) by simp
  have d: "((i * n + j) * m + l) div m = i * n + j" using assms(3) by simp
  show "((i * n + j) * m + l) div m mod n = j" using assms(2) by (simp add: d)
  have "((i * n + j) * m + l) div (m * n) = ((i * n + j) * m + l) div m div n"
    by (simp add: div_mult2_eq)
  then show "((i * n + j) * m + l) div (m * n) = i" using assms(2) by (simp add: d)
qed

lemma idx3_encode:
  assumes "q < n * n * (m::nat)"
  shows "q = (q div (m * n) * n + q div m mod n) * m + q mod m"
    and "q div (m * n) < n" and "q div m mod n < n" and "q mod m < m"
proof -
  from assms have m: "0 < m" and n: "0 < n" by (auto intro: Nat.gr0I)
  show "q mod m < m" using m by simp
  show "q div m mod n < n" using n by simp
  have "q < n * (m * n)" using assms by (simp add: mult_ac)
  then show "q div (m * n) < n" by (simp add: less_mult_imp_div_less)
  have "q div (m * n) * n + q div m mod n = q div m"
    by (simp add: div_mult2_eq)
  then show "q = (q div (m * n) * n + q div m mod n) * m + q mod m" by simp
qed

lemma nth_transposed:
  "i < n \<Longrightarrow> j < n \<Longrightarrow> l < m \<Longrightarrow>
   transposed n m B ! ((i * n + j) * m + l) = B ! ((j * n + i) * m + l)"
  using idx3_less [of i n j l m] by (simp add: transposed_def idx3_decode del: upt_Suc)

lemma contiguous_posf:
  "strides x = [n * m, m, 1] \<Longrightarrow> posf x (i, j, l) = offset x + ((i * n + j) * m + l)"
  by (simp add: posf_def algebra_simps)

lemma contiguous_inj:
  assumes "strides x = [n * m, m, 1]"
  shows "inj_on (posf x) (cube n m)"
proof (rule inj_onI)
  fix s t assume s: "s \<in> cube n m" and t: "t \<in> cube n m" and e: "posf x s = posf x t"
  obtain i j l where sv: "s = (i, j, l)" by (cases s)
  obtain i' j' l' where tv: "t = (i', j', l')" by (cases t)
  from s t sv tv have b: "i < n" "j < n" "l < m" "i' < n" "j' < n" "l' < m"
    by (simp_all add: cube_def)
  from e have q: "(i * n + j) * m + l = (i' * n + j') * m + l'"
    by (simp add: sv tv contiguous_posf [OF assms])
  have "l = l'" using idx3_decode(1) [OF b(1-3)] idx3_decode(1) [OF b(4-6)] q by simp
  moreover have "j = j'" using idx3_decode(2) [OF b(1-3)] idx3_decode(2) [OF b(4-6)] q by simp
  moreover have "i = i'" using idx3_decode(3) [OF b(1-3)] idx3_decode(3) [OF b(4-6)] q by simp
  ultimately show "s = t" by (simp add: sv tv)
qed

lemma contiguous_image:
  assumes "strides x = [n * m, m, 1]"
  shows "posf x ` cube n m = {offset x..<offset x + n * n * m}"
proof (intro set_eqI iffI)
  fix p assume "p \<in> posf x ` cube n m"
  then obtain i j l where "i < n" "j < n" "l < m" "p = posf x (i, j, l)"
    by (auto simp: cube_def)
  then show "p \<in> {offset x..<offset x + n * n * m}"
    using idx3_less [of i n j l m] by (simp add: contiguous_posf [OF assms])
next
  fix p assume "p \<in> {offset x..<offset x + n * n * m}"
  then have q: "p - offset x < n * n * m" and p: "p = offset x + (p - offset x)" by auto
  note e = idx3_encode [OF q]
  have "(p - offset x) div (m * n)  < n \<and> (p - offset x) div m mod n < n \<and> (p - offset x) mod m < m"
    using e(2-4) by simp
  then have "((p - offset x) div (m * n), (p - offset x) div m mod n, (p - offset x) mod m)
      \<in> cube n m" by (simp add: cube_def)
  moreover have "posf x ((p - offset x) div (m * n), (p - offset x) div m mod n, (p - offset x) mod m) = p"
    using e(1) p by (simp only: contiguous_posf [OF assms])
  ultimately show "p \<in> posf x ` cube n m" by (metis imageI)
qed

lemma transpose_square_patch:
  fixes buf :: "'a list"
  assumes sh: "shape x = [2 ^ k, 2 ^ k, m]" and st: "strides x = [2 ^ k * m, m, 1]"
    and bd: "offset x + 2 ^ k * 2 ^ k * m \<le> length buf"
  shows "transpose_square x buf
         = Inr (patch buf (offset x) (transposed (2 ^ k) m (slice buf (offset x) (2 ^ k * 2 ^ k * m))))"
proof -
  define n :: nat where "n = 2 ^ k"
  define off where "off = offset x"
  define B where "B = slice buf off (n * n * m)"
  note st' = st [folded n_def]
  have inj: "inj_on (posf x) (cube n m)" by (rule contiguous_inj [OF st'])
  have img: "posf x ` cube n m = {off..<off + n * n * m}"
    unfolding off_def by (rule contiguous_image [OF st'])
  have "{off..<off + n * n * m} \<subseteq> {..<length buf}"
    using bd by (auto simp: n_def off_def)
  then have sub: "posf x ` cube n m \<subseteq> {..<length buf}" by (simp only: img)
  from transpose_square_moved [OF sh _ inj [unfolded n_def] sub [unfolded n_def]] st
  obtain buf' where r: "transpose_square x buf = Inr buf'"
    and mv: "moved (exch (cube n m) (posf x) (posf x)) buf buf'"
    unfolding n_def by auto
  have "buf' = patch buf off (transposed n m B)"
  proof (rule eq_patchI)
    show "length buf' = length buf" by (rule moved_length [OF mv])
    show "off + length (transposed n m B) \<le> length buf" using bd by (simp add: n_def off_def)
  next
    fix q assume "q < length (transposed n m B)"
    then have q: "q < n * n * m" by simp
    note e = idx3_encode [OF q]
    define i where "i = q div (m * n)"
    define j where "j = q div m mod n"
    define l where "l = q mod m"
    have b: "i < n" "j < n" "l < m" and qe: "q = (i * n + j) * m + l"
      using e by (simp_all add: i_def j_def l_def)
    have "(i, j, l) \<in> cube n m" using b by (simp add: cube_def)
    then have "(posf x (i, j, l), posf x (tr (i, j, l))) \<in> exch (cube n m) (posf x) (posf x)"
      unfolding exch_def by (rule imageI [of _ _ "\<lambda>t. (posf x t, posf x (tr t))"])
    with mv have "buf' ! posf x (i, j, l) = buf ! posf x (j, i, l)"
      by (auto simp: moved_def tr_def)
    then have "buf' ! (off + q) = buf ! (off + ((j * n + i) * m + l))"
      by (simp add: contiguous_posf [OF st'] qe off_def)
    also have "\<dots> = B ! ((j * n + i) * m + l)"
      using idx3_less [OF b(2,1,3)] bd by (simp add: B_def n_def off_def)
    also have "\<dots> = transposed n m B ! q"
      using nth_transposed [OF b, of B] by (simp add: qe)
    finally show "buf' ! (off + q) = transposed n m B ! q" .
  next
    fix q assume "q < length buf" "q < off \<or> off + length (transposed n m B) \<le> q"
    then have "q \<notin> fst ` exch (cube n m) (posf x) (posf x)"
      by (auto simp: img)
    with mv \<open>q < length buf\<close> show "buf' ! q = buf ! q" by (simp add: moved_def)
  qed
  with r show ?thesis by (simp add: B_def n_def off_def)
qed

text \<open>Element \<open>j\<close> multiplied by the twiddle factor with exponent \<open>c * j\<close>.\<close>

definition twiddled :: "nat \<Rightarrow> nat \<Rightarrow> complex list \<Rightarrow> complex list" where
  "twiddled c N xs = map (\<lambda>j. xs ! j * twiddle (c * j) N) [0..<length xs]"

lemma length_twiddled [simp]: "length (twiddled c N xs) = length xs"
  by (simp add: twiddled_def)

lemma nth_twiddled: "j < length xs \<Longrightarrow> twiddled c N xs ! j = xs ! j * twiddle (c * j) N"
  by (simp add: twiddled_def)

lemma mul_twiddles_patch:
  assumes x: "shape row = [n]" "strides row = [1]" "offset row + n \<le> length buf"
  shows "mul_twiddles row n c N (buf, s)
         = Inr (patch buf (offset row) (twiddled c N (slice buf (offset row) n)), s)"
proof -
  define off where "off = offset row"
  define P where "P j st \<longleftrightarrow> (case st of (b, s') \<Rightarrow> s' = s \<and> length b = length buf \<and>
      (\<forall>q<length buf. b ! q = (if off \<le> q \<and> q < off + j
          then buf ! q * twiddle (c * (q - off)) N else buf ! q)))"
    for j and st :: "complex list \<times> complex list option"
  let ?body = "\<lambda>j (buf, scratch).
       bind (getitem row j buf) (\<lambda>v.
       bind (setitem row j (v * twiddle (c * j) N) buf) (\<lambda>buf.
       Inr (buf, scratch)))"
  have "\<exists>st'. for_each [0..<n] ?body (buf, s) = Inr st' \<and> P n st'"
  proof (rule for_each_invariant)
    show "P 0 (buf, s)" by (auto simp: P_def)
  next
    fix j st assume j: "j < n" and Pst: "P j st"
    obtain b s1 where st: "st = (b, s1)" by (cases st)
    from Pst st have s1: "s1 = s" and len: "length b = length buf"
      and Pb: "\<And>q. q < length buf \<Longrightarrow> b ! q = (if off \<le> q \<and> q < off + j
          then buf ! q * twiddle (c * (q - off)) N else buf ! q)"
      by (simp_all add: P_def)
    have rd: "b ! (off + j) = buf ! (off + j)"
      using Pb [of "off + j"] j x(3) by (simp add: off_def)
    define b' where "b' = b[off + j := buf ! (off + j) * twiddle (c * j) N]"
    have step: "?body j st = Inr (b', s)"
      using j x rd by (simp add: st s1 getitem_1d setitem_1d b'_def off_def)
    have "P (Suc j) (b', s)"
      unfolding P_def prod.case
    proof (intro conjI allI impI)
      show "s = s" ..
      show "length b' = length buf" by (simp add: b'_def len)
    next
      fix q assume q: "q < length buf"
      show "b' ! q = (if off \<le> q \<and> q < off + Suc j
          then buf ! q * twiddle (c * (q - off)) N else buf ! q)"
      proof (cases "q = off + j")
        case True
        then show ?thesis using q len by (simp add: b'_def)
      next
        case False
        then have "b' ! q = b ! q" by (simp add: b'_def)
        moreover have "off \<le> q \<and> q < off + Suc j \<longleftrightarrow> off \<le> q \<and> q < off + j"
          using False by auto
        ultimately show ?thesis using Pb [OF q] by simp
      qed
    qed
    with step show "\<exists>t'. ?body j st = Inr t' \<and> P (Suc j) t'" by blast
  qed
  then obtain b where r: "for_each [0..<n] ?body (buf, s) = Inr (b, s)"
    and len: "length b = length buf"
    and Pb: "\<And>q. q < length buf \<Longrightarrow> b ! q = (if off \<le> q \<and> q < off + n
          then buf ! q * twiddle (c * (q - off)) N else buf ! q)"
    by (auto simp: P_def)
  have "b = patch buf off (twiddled c N (slice buf off n))"
  proof (rule eq_patchI)
    show "length b = length buf" by (rule len)
    show "off + length (twiddled c N (slice buf off n)) \<le> length buf"
      using x(3) by (simp add: off_def)
  next
    fix i assume "i < length (twiddled c N (slice buf off n))"
    then have i: "i < n" using x(3) by (simp add: off_def)
    then have "off + i < length buf" using x(3) by (simp add: off_def)
    from Pb [OF this] i show "b ! (off + i) = twiddled c N (slice buf off n) ! i"
      using x(3) by (simp add: nth_twiddled off_def)
  next
    fix q assume "q < length buf" "q < off \<or> off + length (twiddled c N (slice buf off n)) \<le> q"
    then show "b ! q = buf ! q" using Pb [of q] x(3) by (auto simp: off_def)
  qed
  with r show ?thesis by (simp add: mul_twiddles_def off_def)
qed

lemma twiddle_half: "twiddle 1 2 = - 1"
proof -
  have "twiddle 1 2 = cis (- pi)" by (simp add: twiddle_cis)
  also have "\<dots> = cnj (cis pi)" by (simp only: cis_cnj)
  finally show ?thesis by simp
qed

lemma dft_single: "length xs = 1 \<Longrightarrow> dft xs = xs"
proof -
  assume "length xs = 1"
  then obtain a where "xs = [a]" by (cases xs) auto
  then show ?thesis by (simp add: dft_def)
qed

lemma dft_pair: "dft [a, b] = [a + b, a - b]"
proof -
  have "{..<2::nat} = {0, 1}" by auto
  then have "dft [a, b] = [a * twiddle 0 2 + b * twiddle 0 2, a * twiddle 0 2 + b * twiddle 1 2]"
    by (simp add: list_eq_iff_nth_eq nth_dft less_Suc_eq numeral_2_eq_2 lessThan_Suc)
  then show ?thesis using twiddle_half by simp
qed

lemma butterfly2_patch:
  assumes x: "shape x = [2]" "strides x = [1]" "offset x + 2 \<le> length buf"
  shows "butterfly2 x (buf, s) = Inr (patch buf (offset x) (dft (slice buf (offset x) 2)), s)"
proof -
  define off where "off = offset x"
  define a where "a = buf ! off"
  define b where "b = buf ! (off + 1)"
  have sl: "slice buf off 2 = [a, b]"
    using x(3) by (simp add: list_eq_iff_nth_eq a_def b_def off_def less_Suc_eq numeral_2_eq_2)
  have "buf[off := a + b, off + 1 := a - b] = patch buf off [a + b, a - b]"
  proof (rule eq_patchI)
    fix i assume "i < length [a + b, a - b]"
    then have "i = 0 \<or> i = 1" by auto
    then show "buf[off := a + b, off + 1 := a - b] ! (off + i) = [a + b, a - b] ! i"
      using x(3) by (auto simp: off_def)
  qed (use x(3) in \<open>auto simp: off_def\<close>)
  moreover have "butterfly2 x (buf, s) = Inr (buf[off := a + b, off + 1 := a - b], s)"
    using x by (simp add: butterfly2_def getitem_1d setitem_1d a_def b_def off_def)
  ultimately show ?thesis using sl by (simp add: dft_pair off_def)
qed

text \<open>
  \<open>realises f len l0 off L F\<close>: on every buffer of \<open>len\<close> elements and every scratch array
  of length \<open>l0\<close> (\<open>None\<close> for no scratch array), the in-place step \<open>f\<close> succeeds, replaces
  the block of \<open>L\<close> elements at \<open>off\<close> by \<open>F\<close> of its old contents, leaves the rest of the
  buffer alone and keeps the length of the scratch array.
\<close>

definition realises ::
  "(fft_state \<Rightarrow> error + fft_state) \<Rightarrow> nat \<Rightarrow> nat option \<Rightarrow> nat \<Rightarrow> nat
   \<Rightarrow> (complex list \<Rightarrow> complex list) \<Rightarrow> bool" where
  "realises f len l0 off L F \<longleftrightarrow>
     (\<forall>buf s. length buf = len \<and> map_option length s = l0 \<longrightarrow>
        (\<exists>s'. f (buf, s) = Inr (patch buf off (F (slice buf off L)), s') \<and>
              map_option length s' = l0))"

lemma realisesI:
  assumes "\<And>buf s. length buf = len \<Longrightarrow> map_option length s = l0 \<Longrightarrow>
     \<exists>s'. f (buf, s) = Inr (patch buf off (F (slice buf off L)), s') \<and> map_option length s' = l0"
  shows "realises f len l0 off L F"
  using assms unfolding realises_def by blast

lemma realisesD:
  assumes "realises f len l0 off L F" "length buf = len" "map_option length s = l0"
  obtains s' where "f (buf, s) = Inr (patch buf off (F (slice buf off L)), s')"
    "map_option length s' = l0"
  using assms unfolding realises_def by blast

lemma realises_bind:
  assumes f: "realises f len l0 off L F" and g: "realises g len l0 off L G"
    and bd: "off + L \<le> len" and lenF: "\<And>B. length B = L \<Longrightarrow> length (F B) = L"
    and lenG: "\<And>B. length B = L \<Longrightarrow> length (G B) = L"
  shows "realises (\<lambda>st. bind (f st) g) len l0 off L (\<lambda>B. G (F B))"
proof (rule realisesI)
  fix buf :: "complex list" and s :: "complex list option"
  assume len: "length buf = len" and s: "map_option length s = l0"
  define B where "B = slice buf off L"
  have lB: "length B = L" using bd len by (simp add: B_def)
  from realisesD [OF f len s] obtain s1 where
    r1: "f (buf, s) = Inr (patch buf off (F B), s1)" and s1: "map_option length s1 = l0"
    unfolding B_def by blast
  have l1: "length (patch buf off (F B)) = len" using lenF [OF lB] bd len by simp
  from realisesD [OF g l1 s1] obtain s2 where
    r2: "g (patch buf off (F B), s1)
         = Inr (patch (patch buf off (F B)) off (G (slice (patch buf off (F B)) off L)), s2)"
    and s2: "map_option length s2 = l0" by blast
  have "slice (patch buf off (F B)) off L = F B"
    using slice_patch_same [of off "F B" buf] lenF [OF lB] bd len by simp
  then have "patch (patch buf off (F B)) off (G (slice (patch buf off (F B)) off L))
        = patch (patch buf off (F B)) off (G (F B))" by simp
  also have "\<dots> = patch buf off (G (F B))"
    using lenF [OF lB] lenG [OF lenF [OF lB]] bd len by (intro patch_patch_same) simp_all
  finally show "\<exists>s'. bind (f (buf, s)) g = Inr (patch buf off (G (F (slice buf off L))), s') \<and>
       map_option length s' = l0"
    using r1 r2 s2 by (simp add: B_def)
qed

lemma realises_sub:
  assumes f: "realises f len l0 (off + d) k F"
    and bd: "d + k \<le> L" "off + L \<le> len" and lenF: "\<And>B. length B = k \<Longrightarrow> length (F B) = k"
  shows "realises f len l0 off L (\<lambda>Y. patch Y d (F (slice Y d k)))"
proof (rule realisesI)
  fix buf :: "complex list" and s :: "complex list option"
  assume len: "length buf = len" and s: "map_option length s = l0"
  define Y where "Y = slice buf off L"
  have lY: "length Y = L" using bd len by (simp add: Y_def)
  from realisesD [OF f len s] obtain s1 where
    r1: "f (buf, s) = Inr (patch buf (off + d) (F (slice buf (off + d) k)), s1)"
    and s1: "map_option length s1 = l0" by blast
  have sl: "slice buf (off + d) k = slice Y d k"
    unfolding Y_def using bd len by (intro slice_slice [symmetric]) simp_all
  have lZ: "length (F (slice Y d k)) = k" using bd lY by (intro lenF) simp
  have "patch buf off Y = buf" unfolding Y_def using bd len by (intro patch_slice_same) simp
  then have "patch buf (off + d) (F (slice Y d k)) = patch (patch buf off Y) (off + d) (F (slice Y d k))"
    by simp
  also have "\<dots> = patch buf off (patch Y d (F (slice Y d k)))"
    using bd lY lZ len by (intro patch_patch_inner) simp_all
  finally show "\<exists>s'. f (buf, s) = Inr (patch buf off (patch (slice buf off L) d
        (F (slice (slice buf off L) d k))), s') \<and> map_option length s' = l0"
    using r1 s1 by (simp add: sl Y_def)
qed

lemma realises_rows:
  assumes body: "\<And>i. i < r \<Longrightarrow> realises (body i) len l0 (off + i * c) c (G i)"
    and bd: "off + r * c \<le> len"
    and lenG: "\<And>i xs. i < r \<Longrightarrow> length xs = c \<Longrightarrow> length (G i xs) = c"
  shows "realises (for_each [0..<r] body) len l0 off (r * c) (rows_map c G r)"
proof (rule realisesI)
  fix buf :: "complex list" and s :: "complex list option"
  assume len: "length buf = len" and s: "map_option length s = l0"
  show "\<exists>s'. for_each [0..<r] body (buf, s)
           = Inr (patch buf off (rows_map c G r (slice buf off (r * c))), s') \<and>
         map_option length s' = l0"
  proof (rule rows_loop [where Q = "\<lambda>s. map_option length s = l0"])
    show "off + r * c \<le> length buf" using bd len by simp
    show "map_option length s = l0" by (rule s)
  next
    fix i and b :: "complex list" and s1 :: "complex list option"
    assume "i < r" "length b = length buf" "map_option length s1 = l0"
    then show "\<exists>s'. body i (b, s1) = Inr (patch b (off + i * c) (G i (slice b (off + i * c) c)), s')
         \<and> map_option length s' = l0"
      using body [of i] len unfolding realises_def by simp
  next
    fix i and xs :: "complex list" assume "i < r" "length xs = c"
    then show "length (G i xs) = c" by (rule lenG)
  qed
qed

lemma realises_cong:
  "realises f len l0 off L F \<Longrightarrow> (\<And>B. length B = L \<Longrightarrow> F B = F' B) \<Longrightarrow> off + L \<le> len
   \<Longrightarrow> realises f len l0 off L F'"
  unfolding realises_def by (metis length_slice)

lemma realises_fun_cong:
  "realises f len l0 off L F \<Longrightarrow> (\<And>st. f st = f' st) \<Longrightarrow> realises f' len l0 off L F"
  unfolding realises_def by simp

lemma realises_on_buf:
  assumes "\<And>buf. length buf = len \<Longrightarrow> t buf = Inr (patch buf off (F (slice buf off L)))"
  shows "realises (on_buf t) len l0 off L F"
  by (rule realisesI) (simp add: on_buf_def assms)

lemma realises_transpose:
  assumes "shape x = [2 ^ k, 2 ^ k, m]" "strides x = [2 ^ k * m, m, 1]"
    and "offset x + 2 ^ k * 2 ^ k * m \<le> len"
  shows "realises (on_buf (transpose_square x)) len l0 (offset x) (2 ^ k * 2 ^ k * m)
           (transposed (2 ^ k) m)"
  by (rule realises_on_buf) (use assms in \<open>simp add: transpose_square_patch\<close>)

lemma realises_mul_twiddles:
  assumes "shape row = [n]" "strides row = [1]" "offset row + n \<le> len"
  shows "realises (mul_twiddles row n c N) len l0 (offset row) n (twiddled c N)"
  by (rule realisesI) (use assms in \<open>simp add: mul_twiddles_patch\<close>)

lemma realises_interleave:
  assumes "shape x = [n]" "strides x = [1]" "even n" "offset x + n \<le> len"
    and "l0 = Some l" "n div 2 \<le> l"
  shows "realises (interleave x) len l0 (offset x) n interleaved"
proof (rule realisesI)
  fix buf :: "complex list" and s :: "complex list option"
  assume len: "length buf = len" and s: "map_option length s = l0"
  from s assms(5) obtain sbuf where sb: "s = Some sbuf" "length sbuf = l" by (cases s) auto
  from interleave_patch [OF assms(1-3), of buf sbuf] assms(4,6) len sb
  show "\<exists>s'. interleave x (buf, s) = Inr (patch buf (offset x) (interleaved (slice buf (offset x) n)), s')
         \<and> map_option length s' = l0"
    by (auto simp: assms(5))
qed

lemma realises_deinterleave:
  assumes "shape x = [n]" "strides x = [1]" "even n" "offset x + n \<le> len"
    and "l0 = Some l" "n div 2 \<le> l"
  shows "realises (deinterleave x) len l0 (offset x) n deinterleaved"
proof (rule realisesI)
  fix buf :: "complex list" and s :: "complex list option"
  assume len: "length buf = len" and s: "map_option length s = l0"
  from s assms(5) obtain sbuf where sb: "s = Some sbuf" "length sbuf = l" by (cases s) auto
  from deinterleave_patch [OF assms(1-3), of buf sbuf] assms(4,6) len sb
  show "\<exists>s'. deinterleave x (buf, s) = Inr (patch buf (offset x) (deinterleaved (slice buf (offset x) n)), s')
         \<and> map_option length s' = l0"
    by (auto simp: assms(5))
qed

section \<open>The two FFT paths as list functions\<close>

lemma idx2_encode:
  assumes "q < r * (c::nat)"
  shows "q = q div c * c + q mod c" and "q div c < r" and "q mod c < c"
proof -
  from assms have c: "0 < c" by (auto intro: Nat.gr0I)
  show "q = q div c * c + q mod c" by simp
  show "q mod c < c" using c by simp
  show "q div c < r" using assms by (simp add: less_mult_imp_div_less)
qed

lemma nth_transposed1:
  "i < n \<Longrightarrow> j < n \<Longrightarrow> transposed n 1 B ! (i * n + j) = B ! (j * n + i)"
  using nth_transposed [of i n j 0 1 B] by simp

text \<open>What the five phases of \<open>_fft_inplace_evenpow\<close> do to the block, as a list function.\<close>

definition evenpow_list :: "nat \<Rightarrow> complex list \<Rightarrow> complex list" where
  "evenpow_list n B =
     transposed n 1 (rows_map n (\<lambda>_. dft) n
       (transposed n 1 (rows_map n (\<lambda>i xs. twiddled i (n * n) (dft xs)) n
         (transposed n 1 B))))"

lemma evenpow_list_dft:
  assumes n: "0 < n" and lB: "length B = n * n"
  shows "evenpow_list n B = dft B"
proof -
  define B1 where "B1 = transposed n 1 B"
  define B2 where "B2 = rows_map n (\<lambda>i xs. twiddled i (n * n) (dft xs)) n B1"
  define B3 where "B3 = transposed n 1 B2"
  define B4 where "B4 = rows_map n (\<lambda>_. dft) n B3"
  define B5 where "B5 = transposed n 1 B4"
  have l1: "length B1 = n * n" by (simp add: B1_def)
  have row_bd: "i * n + n \<le> n * n" if "i < n" for i
  proof -
    have "i * n + n = (i + 1) * n" by simp
    also have "\<dots> \<le> n * n" using that by (intro mult_le_mono1) simp
    finally show ?thesis .
  qed
  have g2: "length (twiddled i (n * n) (dft (slice B1 (i * n) n))) = n" if "i < n" for i
    using row_bd [OF that] l1 by simp
  have l2: "length B2 = n * n" unfolding B2_def by (rule length_rows_map) (rule g2)
  have l3: "length B3 = n * n" by (simp add: B3_def)
  have g4: "length (dft (slice B3 (i * n) n)) = n" if "i < n" for i
    using row_bd [OF that] l3 by simp
  have l4: "length B4 = n * n" unfolding B4_def by (rule length_rows_map) (rule g4)
  have e2: "B2 ! (i * n + k1) = (\<Sum>r<n. B ! (r * n + i) * twiddle (r * k1) n) * twiddle (i * k1) (n * n)"
    if "i < n" "k1 < n" for i k1
  proof -
    have "B2 ! (i * n + k1) = twiddled i (n * n) (dft (slice B1 (i * n) n)) ! k1"
      unfolding B2_def by (rule nth_rows_map) (use that g2 in simp_all)
    also have "\<dots> = dft (slice B1 (i * n) n) ! k1 * twiddle (i * k1) (n * n)"
      using that row_bd [OF that(1)] l1 by (simp add: nth_twiddled)
    also have "dft (slice B1 (i * n) n) ! k1 = (\<Sum>r<n. slice B1 (i * n) n ! r * twiddle (k1 * r) n)"
      using that row_bd [OF that(1)] l1 by (simp add: nth_dft)
    also have "\<dots> = (\<Sum>r<n. B ! (r * n + i) * twiddle (r * k1) n)"
    proof (rule sum.cong [OF refl])
      fix r assume "r \<in> {..<n}"
      then have r: "r < n" by simp
      have "slice B1 (i * n) n ! r = B1 ! (i * n + r)"
        using r row_bd [OF that(1)] l1 by simp
      also have "\<dots> = B ! (r * n + i)" unfolding B1_def using that(1) r by (rule nth_transposed1)
      finally show "slice B1 (i * n) n ! r * twiddle (k1 * r) n = B ! (r * n + i) * twiddle (r * k1) n"
        by (simp add: mult.commute)
    qed
    finally show ?thesis .
  qed
  have e5: "B5 ! (k2 * n + k1) = dft B ! (k2 * n + k1)" if "k1 < n" "k2 < n" for k1 k2
  proof -
    have "B5 ! (k2 * n + k1) = B4 ! (k1 * n + k2)"
      unfolding B5_def using that(2,1) by (rule nth_transposed1)
    also have "\<dots> = dft (slice B3 (k1 * n) n) ! k2"
      unfolding B4_def by (rule nth_rows_map) (use that g4 in simp_all)
    also have "\<dots> = (\<Sum>i<n. slice B3 (k1 * n) n ! i * twiddle (k2 * i) n)"
      using that row_bd [OF that(1)] l3 by (simp add: nth_dft)
    also have "\<dots> = (\<Sum>i<n. twiddle (i * k2) n * (twiddle (i * k1) (n * n) *
          (\<Sum>r<n. B ! (r * n + i) * twiddle (r * k1) n)))"
    proof (rule sum.cong [OF refl])
      fix i assume "i \<in> {..<n}"
      then have i: "i < n" by simp
      have "slice B3 (k1 * n) n ! i = B3 ! (k1 * n + i)"
        using i row_bd [OF that(1)] l3 by simp
      also have "\<dots> = B2 ! (i * n + k1)" unfolding B3_def using that(1) i by (rule nth_transposed1)
      also have "\<dots> = (\<Sum>r<n. B ! (r * n + i) * twiddle (r * k1) n) * twiddle (i * k1) (n * n)"
        using i that(1) by (rule e2)
      finally show "slice B3 (k1 * n) n ! i * twiddle (k2 * i) n
          = twiddle (i * k2) n * (twiddle (i * k1) (n * n) * (\<Sum>r<n. B ! (r * n + i) * twiddle (r * k1) n))"
        by (simp add: mult.commute [of k2 i] mult_ac)
    qed
    also have "\<dots> = dft B ! (k2 * n + k1)"
      by (rule dft_split [OF lB n n that, symmetric])
    finally show ?thesis .
  qed
  have "B5 = dft B"
  proof (rule nth_equalityI)
    show "length B5 = length (dft B)" by (simp add: B5_def lB)
  next
    fix q assume "q < length B5"
    then have q: "q < n * n" by (simp add: B5_def)
    note e = idx2_encode [OF q]
    from e5 [OF e(3,2)] e(1) show "B5 ! q = dft B ! q" by simp
  qed
  then show ?thesis by (simp add: evenpow_list_def B5_def B4_def B3_def B2_def B1_def)
qed

text \<open>
  \<open>sub_apply d k F\<close> applies \<open>F\<close> to the \<open>k\<close> elements from \<open>d\<close> on; \<open>oddpow_row\<close> is what the
  body of the first loop of \<open>_fft_inplace_oddpow\<close> does to one pair of rows.
\<close>

definition sub_apply :: "nat \<Rightarrow> nat \<Rightarrow> ('a list \<Rightarrow> 'a list) \<Rightarrow> 'a list \<Rightarrow> 'a list" where
  "sub_apply d k F Y = patch Y d (F (slice Y d k))"

lemma length_sub_apply:
  "d + k \<le> length Y \<Longrightarrow> length (F (slice Y d k)) = k \<Longrightarrow> length (sub_apply d k F Y) = length Y"
  by (simp add: sub_apply_def)

lemma slice_sub_apply_same:
  "d + k \<le> length Y \<Longrightarrow> length (F (slice Y d k)) = k \<Longrightarrow>
   slice (sub_apply d k F Y) d k = F (slice Y d k)"
  using slice_patch_same [of d "F (slice Y d k)" Y] by (simp add: sub_apply_def)

lemma slice_sub_apply_after:
  "k + c \<le> length Y \<Longrightarrow> length (F (slice Y 0 k)) = k \<Longrightarrow>
   slice (sub_apply 0 k F Y) k c = slice Y k c"
  using slice_patch_after [of 0 "F (slice Y 0 k)" c Y] by (simp add: sub_apply_def)

lemma slice_sub_apply_before:
  "d + k \<le> length Y \<Longrightarrow> slice (sub_apply d k F Y) 0 d = slice Y 0 d"
  by (simp add: sub_apply_def slice_def patch_def)

definition oddpow_row :: "nat \<Rightarrow> nat \<Rightarrow> nat \<Rightarrow> complex list \<Rightarrow> complex list" where
  "oddpow_row i n N X =
     interleaved (sub_apply n n (twiddled (2 * i + 1) N) (sub_apply n n dft
       (sub_apply 0 n (twiddled (2 * i) N) (sub_apply 0 n dft (deinterleaved X)))))"

lemma length_oddpow_row: "length X = 2 * n \<Longrightarrow> length (oddpow_row i n N X) = 2 * n"
  by (simp add: oddpow_row_def length_sub_apply)

lemma nth_oddpow_row:
  assumes lX: "length X = 2 * n" and k1: "k1 < n" and e: "e < 2"
  shows "oddpow_row i n N X ! (2 * k1 + e)
         = (\<Sum>r<n. X ! (2 * r + e) * twiddle (r * k1) n) * twiddle ((2 * i + e) * k1) N"
proof -
  define D where "D = deinterleaved X"
  define Y1 where "Y1 = sub_apply 0 n dft D"
  define Y2 where "Y2 = sub_apply 0 n (twiddled (2 * i) N) Y1"
  define Y3 where "Y3 = sub_apply n n dft Y2"
  define Y4 where "Y4 = sub_apply n n (twiddled (2 * i + 1) N) Y3"
  have lD: "length D = 2 * n" by (simp add: D_def lX)
  have l1: "length Y1 = 2 * n" unfolding Y1_def using lD by (simp add: length_sub_apply)
  have l2: "length Y2 = 2 * n" unfolding Y2_def using l1 by (simp add: length_sub_apply)
  have l3: "length Y3 = 2 * n" unfolding Y3_def using l2 by (simp add: length_sub_apply)
  have l4: "length Y4 = 2 * n" unfolding Y4_def using l3 by (simp add: length_sub_apply)
  have a1: "slice Y1 0 n = dft (slice D 0 n)"
    unfolding Y1_def using lD by (intro slice_sub_apply_same) simp_all
  have b1: "slice Y1 n n = slice D n n"
    unfolding Y1_def using lD by (intro slice_sub_apply_after) simp_all
  have a2: "slice Y2 0 n = twiddled (2 * i) N (dft (slice D 0 n))"
    unfolding Y2_def using lD l1 slice_sub_apply_same [of 0 n Y1 "twiddled (2 * i) N"]
    by (simp add: a1)
  have b2: "slice Y2 n n = slice D n n"
    unfolding Y2_def using lD l1 slice_sub_apply_after [of n n Y1 "twiddled (2 * i) N"]
    by (simp add: b1)
  have a3: "slice Y3 0 n = twiddled (2 * i) N (dft (slice D 0 n))"
    unfolding Y3_def using lD l2 slice_sub_apply_before [of n n Y2 dft] by (simp add: a2)
  have b3: "slice Y3 n n = dft (slice D n n)"
    unfolding Y3_def using lD l2 slice_sub_apply_same [of n n Y2 dft] by (simp add: b2)
  have a4: "slice Y4 0 n = twiddled (2 * i) N (dft (slice D 0 n))"
    unfolding Y4_def using lD l3 slice_sub_apply_before [of n n Y3 "twiddled (2 * i + 1) N"]
    by (simp add: a3)
  have b4: "slice Y4 n n = twiddled (2 * i + 1) N (dft (slice D n n))"
    unfolding Y4_def using lD l3 slice_sub_apply_same [of n n Y3 "twiddled (2 * i + 1) N"]
    by (simp add: b3)
  have res: "oddpow_row i n N X = interleaved Y4"
    by (simp add: oddpow_row_def Y4_def Y3_def Y2_def Y1_def D_def)
  have half: "Y4 ! (e * n + k1) = (\<Sum>r<n. X ! (2 * r + e) * twiddle (r * k1) n)
                * twiddle ((2 * i + e) * k1) N"
  proof -
    from e consider "e = 0" | "e = 1" by linarith
    then show ?thesis
    proof cases
      case 1
      have "Y4 ! k1 = slice Y4 0 n ! k1" using k1 l4 by simp
      also have "\<dots> = dft (slice D 0 n) ! k1 * twiddle (2 * i * k1) N"
        using k1 lD by (simp add: a4 nth_twiddled)
      also have "dft (slice D 0 n) ! k1 = (\<Sum>r<n. slice D 0 n ! r * twiddle (k1 * r) n)"
        using k1 lD by (simp add: nth_dft)
      also have "\<dots> = (\<Sum>r<n. X ! (2 * r) * twiddle (r * k1) n)"
      proof (rule sum.cong [OF refl])
        fix r assume "r \<in> {..<n}"
        then have r: "r < n" by simp
        then have "slice D 0 n ! r = D ! r" using lD by simp
        also have "\<dots> = X ! (2 * r)" unfolding D_def using nth_deinterleaved [OF lX r] by simp
        finally show "slice D 0 n ! r * twiddle (k1 * r) n = X ! (2 * r) * twiddle (r * k1) n"
          by (simp add: mult.commute)
      qed
      finally show ?thesis using 1 by simp
    next
      case 2
      have "Y4 ! (n + k1) = slice Y4 n n ! k1" using k1 l4 by simp
      also have "\<dots> = dft (slice D n n) ! k1 * twiddle ((2 * i + 1) * k1) N"
        using k1 lD by (simp add: b4 nth_twiddled)
      also have "dft (slice D n n) ! k1 = (\<Sum>r<n. slice D n n ! r * twiddle (k1 * r) n)"
        using k1 lD by (simp add: nth_dft)
      also have "\<dots> = (\<Sum>r<n. X ! (2 * r + 1) * twiddle (r * k1) n)"
      proof (rule sum.cong [OF refl])
        fix r assume "r \<in> {..<n}"
        then have r: "r < n" by simp
        then have "slice D n n ! r = D ! (n + r)" using lD by simp
        also have "\<dots> = X ! (2 * r + 1)" unfolding D_def using nth_deinterleaved [OF lX r] by simp
        finally show "slice D n n ! r * twiddle (k1 * r) n = X ! (2 * r + 1) * twiddle (r * k1) n"
          by (simp add: mult.commute)
      qed
      finally show ?thesis using 2 by simp
    qed
  qed
  from e consider "e = 0" | "e = 1" by linarith
  then have "interleaved Y4 ! (2 * k1 + e) = Y4 ! (e * n + k1)"
    using nth_interleaved [OF l4 k1] by cases simp_all
  with half res show ?thesis by simp
qed

text \<open>What the six phases of \<open>_fft_inplace_oddpow\<close> do to the block, as a list function.\<close>

definition oddpow_list :: "nat \<Rightarrow> nat \<Rightarrow> complex list \<Rightarrow> complex list" where
  "oddpow_list n N B =
     rows_map (2 * n) (\<lambda>_. deinterleaved) n
       (transposed n 2 (rows_map (2 * n) (\<lambda>_. dft) n
         (transposed n 2 (rows_map (2 * n) (\<lambda>i. oddpow_row i n N) n
           (transposed n 2 B)))))"

lemma nth_transposed2:
  "i < n \<Longrightarrow> j < n \<Longrightarrow> e < 2 \<Longrightarrow>
   transposed n 2 B ! (i * (2 * n) + (2 * j + e)) = B ! (j * (2 * n) + (2 * i + e))"
proof -
  assume h: "i < n" "j < n" "e < 2"
  have "i * (2 * n) + (2 * j + e) = (i * n + j) * 2 + e"
    "j * (2 * n) + (2 * i + e) = (j * n + i) * 2 + e"
    by (simp_all add: algebra_simps)
  then show ?thesis using nth_transposed [OF h, of B] by (simp only:)
qed

lemma pair_encode:
  assumes "c < 2 * (n::nat)"
  shows "c = 2 * (c div 2) + c mod 2" and "c div 2 < n" and "c mod 2 < 2"
  using assms by auto

lemma oddpow_list_dft:
  assumes n: "0 < n" and N: "N = n * (2 * n)" and lB: "length B = N"
  shows "oddpow_list n N B = dft B"
proof -
  define B1 where "B1 = transposed n 2 B"
  define B2 where "B2 = rows_map (2 * n) (\<lambda>i. oddpow_row i n N) n B1"
  define B3 where "B3 = transposed n 2 B2"
  define B4 where "B4 = rows_map (2 * n) (\<lambda>_. dft) n B3"
  define B5 where "B5 = transposed n 2 B4"
  define B6 where "B6 = rows_map (2 * n) (\<lambda>_. deinterleaved) n B5"
  define W where "W c k1 = (\<Sum>r<n. B ! (r * (2 * n) + c) * twiddle (r * k1) n) * twiddle (c * k1) N"
    for c k1
  have sz: "n * n * 2 = n * (2 * n)" by simp
  have row_bd: "i * (2 * n) + 2 * n \<le> n * (2 * n)" if "i < n" for i
  proof -
    have "i * (2 * n) + 2 * n = (i + 1) * (2 * n)" by simp
    also have "\<dots> \<le> n * (2 * n)" using that by (intro mult_le_mono1) simp
    finally show ?thesis .
  qed
  have l1: "length B1 = n * (2 * n)" by (simp add: B1_def)
  have sl: "length (slice Z (i * (2 * n)) (2 * n)) = 2 * n"
    if "i < n" "length Z = n * (2 * n)" for i and Z :: "complex list"
    using row_bd [OF that(1)] that(2) by simp
  have l2: "length B2 = n * (2 * n)"
    unfolding B2_def by (rule length_rows_map) (simp add: length_oddpow_row sl l1)
  have l3: "length B3 = n * (2 * n)" by (simp add: B3_def)
  have l4: "length B4 = n * (2 * n)"
    unfolding B4_def by (rule length_rows_map) (simp add: sl l3)
  have l5: "length B5 = n * (2 * n)" by (simp add: B5_def)
  have l6: "length B6 = n * (2 * n)"
    unfolding B6_def by (rule length_rows_map) (simp add: sl l5)
  have nsl: "slice Z (i * (2 * n)) (2 * n) ! t = Z ! (i * (2 * n) + t)"
    if "i < n" "t < 2 * n" "length Z = n * (2 * n)" for i t and Z :: "complex list"
    using row_bd [OF that(1)] that(2,3) by simp
  have e2: "B2 ! (i * (2 * n) + (2 * k1 + e)) = W (2 * i + e) k1"
    if "i < n" "k1 < n" "e < 2" for i k1 e
  proof -
    have t: "2 * k1 + e < 2 * n" using that by linarith
    have "B2 ! (i * (2 * n) + (2 * k1 + e))
        = oddpow_row i n N (slice B1 (i * (2 * n)) (2 * n)) ! (2 * k1 + e)"
      unfolding B2_def
      by (rule nth_rows_map) (use that t in \<open>simp_all add: length_oddpow_row sl l1\<close>)
    also have "\<dots> = (\<Sum>r<n. slice B1 (i * (2 * n)) (2 * n) ! (2 * r + e) * twiddle (r * k1) n)
                  * twiddle ((2 * i + e) * k1) N"
      by (rule nth_oddpow_row) (use that in \<open>simp_all add: sl l1\<close>)
    also have "(\<Sum>r<n. slice B1 (i * (2 * n)) (2 * n) ! (2 * r + e) * twiddle (r * k1) n)
        = (\<Sum>r<n. B ! (r * (2 * n) + (2 * i + e)) * twiddle (r * k1) n)"
    proof (rule sum.cong [OF refl])
      fix r assume "r \<in> {..<n}"
      then have r: "r < n" by simp
      then have "2 * r + e < 2 * n" using that(3) by linarith
      then have "slice B1 (i * (2 * n)) (2 * n) ! (2 * r + e) = B1 ! (i * (2 * n) + (2 * r + e))"
        using that(1) l1 by (intro nsl) simp_all
      also have "\<dots> = B ! (r * (2 * n) + (2 * i + e))"
        unfolding B1_def using that(1) r that(3) by (rule nth_transposed2)
      finally show "slice B1 (i * (2 * n)) (2 * n) ! (2 * r + e) * twiddle (r * k1) n
          = B ! (r * (2 * n) + (2 * i + e)) * twiddle (r * k1) n" by simp
    qed
    finally show ?thesis by (simp add: W_def)
  qed
  have e3: "B3 ! (k1 * (2 * n) + c) = W c k1" if "k1 < n" "c < 2 * n" for k1 c
  proof -
    note p = pair_encode [OF that(2)]
    have "B3 ! (k1 * (2 * n) + (2 * (c div 2) + c mod 2))
        = B2 ! ((c div 2) * (2 * n) + (2 * k1 + c mod 2))"
      unfolding B3_def using that(1) p(2,3) by (rule nth_transposed2)
    also have "\<dots> = W (2 * (c div 2) + c mod 2) k1"
      using p(2) that(1) p(3) by (rule e2)
    finally show ?thesis using p(1) by simp
  qed
  have e4: "B4 ! (k1 * (2 * n) + k2) = dft B ! (k2 * n + k1)" if "k1 < n" "k2 < 2 * n" for k1 k2
  proof -
    have "B4 ! (k1 * (2 * n) + k2) = dft (slice B3 (k1 * (2 * n)) (2 * n)) ! k2"
      unfolding B4_def by (rule nth_rows_map) (use that in \<open>simp_all add: sl l3\<close>)
    also have "\<dots> = (\<Sum>c<2 * n. slice B3 (k1 * (2 * n)) (2 * n) ! c * twiddle (k2 * c) (2 * n))"
      using that sl [OF that(1) l3] by (simp add: nth_dft)
    also have "\<dots> = (\<Sum>c<2 * n. twiddle (c * k2) (2 * n) *
          (twiddle (c * k1) (n * (2 * n)) * (\<Sum>r<n. B ! (r * (2 * n) + c) * twiddle (r * k1) n)))"
    proof (rule sum.cong [OF refl])
      fix c assume "c \<in> {..<2 * n}"
      then have c: "c < 2 * n" by simp
      have "slice B3 (k1 * (2 * n)) (2 * n) ! c = B3 ! (k1 * (2 * n) + c)"
        using that(1) c l3 by (rule nsl)
      also have "\<dots> = W c k1" using that(1) c by (rule e3)
      finally show "slice B3 (k1 * (2 * n)) (2 * n) ! c * twiddle (k2 * c) (2 * n)
          = twiddle (c * k2) (2 * n) *
            (twiddle (c * k1) (n * (2 * n)) * (\<Sum>r<n. B ! (r * (2 * n) + c) * twiddle (r * k1) n))"
        by (simp add: W_def N mult.commute [of k2 c] mult_ac)
    qed
    also have "\<dots> = dft B ! (k2 * n + k1)"
      by (rule dft_split [symmetric]) (use n that lB N in simp_all)
    finally show ?thesis .
  qed
  have e6: "B6 ! (p * (2 * n) + (e * n + k1)) = dft B ! (p * (2 * n) + (e * n + k1))"
    if "p < n" "k1 < n" "e < 2" for p k1 e
  proof -
    have t: "e * n + k1 < 2 * n"
    proof -
      have "e * n + k1 < 2 * n" using that(3,2) by (rule idx2_less)
      then show ?thesis .
    qed
    have t2: "2 * k1 + e < 2 * n" using that by linarith
    from that(3) consider "e = 0" | "e = 1" by linarith
    then have d: "deinterleaved (slice B5 (p * (2 * n)) (2 * n)) ! (e * n + k1)
        = slice B5 (p * (2 * n)) (2 * n) ! (2 * k1 + e)"
      using nth_deinterleaved [OF sl [OF that(1) l5] that(2)] by cases simp_all
    have "B6 ! (p * (2 * n) + (e * n + k1))
        = deinterleaved (slice B5 (p * (2 * n)) (2 * n)) ! (e * n + k1)"
      unfolding B6_def by (rule nth_rows_map) (use that t in \<open>simp_all add: sl l5\<close>)
    also have "\<dots> = B5 ! (p * (2 * n) + (2 * k1 + e))"
      using d nsl [OF that(1) t2 l5] by simp
    also have "\<dots> = B4 ! (k1 * (2 * n) + (2 * p + e))"
      unfolding B5_def using that by (rule nth_transposed2)
    also have "\<dots> = dft B ! ((2 * p + e) * n + k1)"
      by (rule e4) (use that in \<open>simp, linarith\<close>)
    also have "(2 * p + e) * n + k1 = p * (2 * n) + (e * n + k1)"
      by (simp add: algebra_simps)
    finally show ?thesis .
  qed
  have "B6 = dft B"
  proof (rule nth_equalityI)
    show "length B6 = length (dft B)" by (simp add: l6 lB N)
  next
    fix q assume "q < length B6"
    then have q: "q < n * (2 * n)" by (simp add: l6)
    note a = idx2_encode [OF q]
    have "q mod (2 * n) < 2 * n" by (rule a(3))
    note b = idx2_encode [OF this]
    from e6 [OF a(2) b(3,2)] a(1) b(1) show "B6 ! q = dft B ! q" by simp
  qed
  then show ?thesis
    by (simp add: oddpow_list_def B6_def B5_def B4_def B3_def B2_def B1_def)
qed

section \<open>Correctness of the in-place FFT\<close>

text \<open>
  \<open>req lb\<close> is the largest half-length that any \<open>_interleave\<close> or \<open>_deinterleave\<close> call asks
  of the scratch array in the recursion of \<open>_fft_inplace\<close> on a block of length \<open>2 ^ lb\<close>:
  lengths one and two need none, an even power recurses on rows of length
  \<open>2 ^ (lb div 2)\<close>, and an odd power permutes rows of length \<open>2 * 2 ^ (lb div 2)\<close> and
  recurses on rows of length \<open>2 ^ (lb div 2)\<close> and \<open>2 ^ (lb div 2 + 1)\<close>.
\<close>

function req :: "nat \<Rightarrow> nat" where
  "req lb =
     (if lb \<le> 1 then 0
      else if even lb then req (lb div 2)
      else max (2 ^ (lb div 2)) (max (req (lb div 2)) (req (lb div 2 + 1))))"
  by pat_completeness auto
termination
proof (relation "measure id", goal_cases)
  case (4 lb)
  then have "lb div 2 + 1 < lb" by presburger
  then show ?case by simp
qed auto

declare req.simps [simp del]

lemma req_small: "k \<le> 1 \<Longrightarrow> req k = 0"
  by (subst req.simps) simp

lemma req_even: "even k \<Longrightarrow> 2 \<le> k \<Longrightarrow> req k = req (k div 2)"
  by (subst req.simps) simp

lemma req_odd_unfold:
  "odd k \<Longrightarrow> 3 \<le> k \<Longrightarrow> req k = max (2 ^ (k div 2)) (max (req (k div 2)) (req (k div 2 + 1)))"
  by (subst req.simps) simp

lemma req_le: "req k \<le> 2 ^ (k div 2)"
proof (induction k rule: less_induct)
  case (less k)
  consider "k \<le> 1" | "even k" "2 \<le> k" | "odd k" "3 \<le> k"
    by (metis One_nat_def Suc_1 Suc_leI le_neq_implies_less linorder_not_less numeral_3_eq_3 odd_one even_numeral
        not_less_eq_eq)
  then show ?case
  proof cases
    case 1
    then show ?thesis by (simp add: req_small)
  next
    case 2
    then have "req k = req (k div 2)" by (rule req_even)
    also have "\<dots> \<le> 2 ^ (k div 2 div 2)" using 2 by (intro less.IH) simp
    also have "\<dots> \<le> 2 ^ (k div 2)" by (intro power_increasing) simp_all
    finally show ?thesis .
  next
    case 3
    have a: "req (k div 2) \<le> 2 ^ (k div 2)"
    proof -
      have "req (k div 2) \<le> 2 ^ (k div 2 div 2)" using 3 by (intro less.IH) simp
      also have "\<dots> \<le> 2 ^ (k div 2)" by (intro power_increasing) simp_all
      finally show ?thesis .
    qed
    have b: "req (k div 2 + 1) \<le> 2 ^ (k div 2)"
    proof -
      have "k div 2 + 1 < k" using 3 by presburger
      then have "req (k div 2 + 1) \<le> 2 ^ ((k div 2 + 1) div 2)" by (rule less.IH)
      also have "\<dots> \<le> 2 ^ (k div 2)"
      proof (intro power_increasing)
        show "(k div 2 + 1) div 2 \<le> k div 2" using 3 by presburger
      qed simp
      finally show ?thesis .
    qed
    show ?thesis using a b by (simp add: req_odd_unfold [OF 3])
  qed
qed

lemma req_odd: "odd k \<Longrightarrow> 3 \<le> k \<Longrightarrow> req k = 2 ^ (k div 2)"
proof -
  assume k: "odd k" "3 \<le> k"
  have "req (k div 2) \<le> 2 ^ (k div 2)"
  proof -
    have "req (k div 2) \<le> 2 ^ (k div 2 div 2)" by (rule req_le)
    also have "\<dots> \<le> 2 ^ (k div 2)" by (intro power_increasing) simp_all
    finally show ?thesis .
  qed
  moreover have "req (k div 2 + 1) \<le> 2 ^ (k div 2)"
  proof -
    have "req (k div 2 + 1) \<le> 2 ^ ((k div 2 + 1) div 2)" by (rule req_le)
    also have "\<dots> \<le> 2 ^ (k div 2)"
    proof (intro power_increasing)
      show "(k div 2 + 1) div 2 \<le> k div 2" using k by presburger
    qed simp
    finally show ?thesis .
  qed
  ultimately show ?thesis by (simp add: req_odd_unfold [OF k])
qed

lemma req_odd_part: "odd m \<Longrightarrow> req (m * 2 ^ j) = (if m = 1 then 0 else 2 ^ ((m - 1) div 2))"
proof (induction j)
  case 0
  show ?case
  proof (cases "m = 1")
    case True
    then show ?thesis by (simp add: req_small)
  next
    case False
    with 0 have "3 \<le> m" by (metis One_nat_def Suc_leI le_neq_implies_less numeral_3_eq_3
          odd_pos even_Suc not_less_eq_eq Suc_1 even_numeral less_one linorder_not_le)
    moreover have "(m - 1) div 2 = m div 2" using 0 by presburger
    ultimately show ?thesis using 0 False by (simp add: req_odd)
  qed
next
  case (Suc j)
  have "0 < m" using Suc.prems by (rule odd_pos)
  then have "2 \<le> m * 2 ^ Suc j"
  proof -
    have "1 * 2 \<le> m * 2 ^ Suc j" using \<open>0 < m\<close> by (intro mult_mono) simp_all
    then show ?thesis by simp
  qed
  then have "req (m * 2 ^ Suc j) = req (m * 2 ^ Suc j div 2)" by (intro req_even) simp
  also have "m * 2 ^ Suc j div 2 = m * 2 ^ j" by simp
  finally show ?case using Suc by simp
qed

lemma scrach_length_req: "scrach_length k = Some (req k)"
proof (cases "k = 0")
  case True
  then show ?thesis by (simp add: scrach_length_def req_small)
next
  case False
  then obtain m j where "odd m" "k = m * 2 ^ j" using odd_part_exists [of k] by auto
  then show ?thesis by (simp add: scrach_length_odd_part req_odd_part)
qed

text \<open>
  \<open>fits L l0\<close>: a scratch array of length \<open>l0\<close> serves a demand of \<open>L\<close> elements.
  \<open>fft_ok k\<close>: on contiguous blocks of length \<open>2 ^ k\<close>, \<open>fft_inplace\<close> realises \<open>dft\<close>.
\<close>

definition fits :: "nat \<Rightarrow> nat option \<Rightarrow> bool" where
  "fits L l0 \<longleftrightarrow> L = 0 \<or> (\<exists>l. l0 = Some l \<and> L \<le> l)"

definition fft_ok :: "nat \<Rightarrow> bool" where
  "fft_ok k \<longleftrightarrow>
     (\<forall>x len l0. shape x = [2 ^ k] \<and> strides x = [1] \<and> offset x + 2 ^ k \<le> len \<and> fits (req k) l0
        \<longrightarrow> realises (fft_inplace x) len l0 (offset x) (2 ^ k) dft)"

lemma fft_okD:
  "fft_ok k \<Longrightarrow> shape x = [2 ^ k] \<Longrightarrow> strides x = [1] \<Longrightarrow> offset x + 2 ^ k \<le> len \<Longrightarrow>
   fits (req k) l0 \<Longrightarrow> realises (fft_inplace x) len l0 (offset x) (2 ^ k) dft"
  unfolding fft_ok_def by blast

lemma contiguous_1d: "shape x = [n] \<Longrightarrow> strides x = [1] \<Longrightarrow> c_contiguous x"
  by (simp add: c_contiguous_def)

lemma set_shape_3d:
  "shape x = [N] \<Longrightarrow> strides x = [1] \<Longrightarrow> N = a * a * m \<Longrightarrow>
   set_shape [a, a, m] x = Inr \<lparr>offset = offset x, shape = [a, a, m], strides = [a * m, m, 1]\<rparr>"
  by (simp add: set_shape_def contiguous_1d c_strides_def)

lemma length_rows_map_const:
  assumes "length B = r * c" "\<And>i xs. i < r \<Longrightarrow> length xs = c \<Longrightarrow> length (G i xs) = c"
  shows "length (rows_map c G r B) = r * c"
proof (rule length_rows_map)
  fix i assume i: "i < r"
  have "i * c + c = (i + 1) * c" by simp
  also have "\<dots> \<le> r * c" using i by (intro mult_le_mono1) simp
  finally have "length (slice B (i * c) c) = c" using assms(1) by simp
  with i show "length (G i (slice B (i * c) c)) = c" by (rule assms(2))
qed

lemma evenpow_ok:
  assumes ok: "fft_ok c" and c: "1 \<le> c"
    and x: "shape x = [2 ^ (2 * c)]" "strides x = [1]" "offset x + 2 ^ (2 * c) \<le> len"
    and fit: "fits (req c) l0"
  shows "realises (fft_inplace_evenpow x) len l0 (offset x) (2 ^ (2 * c)) dft"
proof -
  define n :: nat where "n = 2 ^ c"
  define N :: nat where "N = 2 ^ (2 * c)"
  define off where "off = offset x"
  have n0: "0 < n" by (simp add: n_def)
  have N: "N = n * n" by (simp add: N_def n_def power2_eq_square power_mult mult.commute)
  define x3 where "x3 = \<lparr>offset = off, shape = [n, n, 1], strides = [n * 1, 1, 1]\<rparr>"
  define row where "row i = \<lparr>offset = off + i * n, shape = [n], strides = [1]\<rparr>" for i
  define T where "T = on_buf (transpose_square x3 :: complex list \<Rightarrow> error + complex list)"
  define L1 where "L1 = for_each [0..<n] (\<lambda>i st. bind (fft_inplace (row i) st) (mul_twiddles (row i) n i N))"
  define L2 where "L2 = for_each [0..<n] (\<lambda>i. fft_inplace (row i))"
  have lb: "lb_exact (int N) = Inr (2 * c)"
    using lb_exact_pow2 [of "2 * c"] by (simp add: N_def)
  have ss: "set_shape [n, n, 1] x = Inr x3"
    using set_shape_3d [of x N n 1] x(1,2) N by (simp add: x3_def N_def off_def)
  have rows: "sub_view (last_ax0 x3) i = row i" for i
    by (simp add: sub_view_def last_ax0_def x3_def row_def)
  have unf: "fft_inplace_evenpow x st =
      bind (T st) (\<lambda>st. bind (L1 st) (\<lambda>st. bind (T st) (\<lambda>st. bind (L2 st) T)))" for st
    using x(1) lb ss
    by (subst fft_inplace_evenpow.simps)
      (simp add: N_def [symmetric] push_bit_eq_mult drop_bit_eq_div n_def [symmetric] rows
        T_def L1_def L2_def x3_def [symmetric] Let_def,
       simp add: x3_def)
  have bd: "off + n * n \<le> len" using x(3) N by (simp add: off_def N_def)
  have rT: "realises T len l0 off (n * n) (transposed n 1)"
    using realises_transpose [of x3 c 1 len l0] bd
    by (simp add: T_def x3_def n_def)
  have row_bd: "off + i * n + n \<le> len" if "i < n" for i
  proof -
    have "i * n + n = (i + 1) * n" by simp
    also have "\<dots> \<le> n * n" using that by (intro mult_le_mono1) simp
    finally show ?thesis using bd by simp
  qed
  have rF: "realises (fft_inplace (row i)) len l0 (off + i * n) n dft" if "i < n" for i
    using fft_okD [OF ok, of "row i" len l0] row_bd [OF that] fit
    by (simp add: row_def n_def)
  have rM: "realises (mul_twiddles (row i) n i N) len l0 (off + i * n) n (twiddled i N)"
    if "i < n" for i
    using realises_mul_twiddles [of "row i" n len i N l0] row_bd [OF that]
    by (simp add: row_def)
  have rB: "realises (\<lambda>st. bind (fft_inplace (row i) st) (mul_twiddles (row i) n i N))
      len l0 (off + i * n) n (\<lambda>B. twiddled i N (dft B))" if "i < n" for i
    by (rule realises_bind [OF rF [OF that] rM [OF that] row_bd [OF that]]) simp_all
  have rL1: "realises L1 len l0 off (n * n) (rows_map n (\<lambda>i xs. twiddled i N (dft xs)) n)"
    unfolding L1_def by (rule realises_rows [OF rB]) (use bd in simp_all)
  have rL2: "realises L2 len l0 off (n * n) (rows_map n (\<lambda>_. dft) n)"
    unfolding L2_def by (rule realises_rows [OF rF]) (use bd in simp_all)
  have len1: "length (rows_map n (\<lambda>i xs. twiddled i N (dft xs)) n B) = n * n"
    if "length B = n * n" for B
    using that by (intro length_rows_map_const) simp_all
  have len2: "length (rows_map n (\<lambda>_. dft) n B) = n * n" if "length B = n * n" for B
    using that by (intro length_rows_map_const) simp_all
  have r45: "realises (\<lambda>st. bind (L2 st) T) len l0 off (n * n)
      (\<lambda>B. transposed n 1 (rows_map n (\<lambda>_. dft) n B))"
    by (rule realises_bind [OF rL2 rT bd]) (simp_all add: len2)
  have r345: "realises (\<lambda>st. bind (T st) (\<lambda>st. bind (L2 st) T)) len l0 off (n * n)
      (\<lambda>B. transposed n 1 (rows_map n (\<lambda>_. dft) n (transposed n 1 B)))"
    by (rule realises_bind [OF rT r45 bd]) (simp_all add: len2)
  have r2345: "realises (\<lambda>st. bind (L1 st) (\<lambda>st. bind (T st) (\<lambda>st. bind (L2 st) T))) len l0 off (n * n)
      (\<lambda>B. transposed n 1 (rows_map n (\<lambda>_. dft) n (transposed n 1
          (rows_map n (\<lambda>i xs. twiddled i N (dft xs)) n B))))"
    by (rule realises_bind [OF rL1 r345 bd]) (simp_all add: len1 len2)
  have r12345: "realises (\<lambda>st. bind (T st) (\<lambda>st. bind (L1 st) (\<lambda>st. bind (T st) (\<lambda>st. bind (L2 st) T))))
      len l0 off (n * n) (evenpow_list n)"
    using realises_bind [OF rT r2345 bd] by (simp add: len1 len2 evenpow_list_def [abs_def] N)
  have "realises (fft_inplace_evenpow x) len l0 off (n * n) (evenpow_list n)"
    by (rule realises_fun_cong [OF r12345]) (simp add: unf)
  then have "realises (fft_inplace_evenpow x) len l0 off (n * n) dft"
    by (rule realises_cong) (use n0 bd in \<open>simp_all add: evenpow_list_dft\<close>)
  then show ?thesis by (simp add: off_def N [symmetric] N_def)
qed

lemma set_shape_row_pair:
  "set_shape [2 * n] \<lparr>offset = o', shape = [n, 2], strides = [2, 1]\<rparr>
   = Inr \<lparr>offset = o', shape = [2 * n], strides = [1]\<rparr>"
  by (simp add: set_shape_def c_contiguous_def c_strides_def)

lemma oddpow_ok:
  assumes ok: "fft_ok c" "fft_ok (c + 1)" and c: "1 \<le> c"
    and x: "shape x = [2 ^ (2 * c + 1)]" "strides x = [1]" "offset x + 2 ^ (2 * c + 1) \<le> len"
    and l0: "l0 = Some l" "2 ^ c \<le> l" and fit: "fits (req c) l0" "fits (req (c + 1)) l0"
  shows "realises (fft_inplace_oddpow x) len l0 (offset x) (2 ^ (2 * c + 1)) dft"
proof -
  define n :: nat where "n = 2 ^ c"
  define N :: nat where "N = 2 ^ (2 * c + 1)"
  define off where "off = offset x"
  have n0: "0 < n" by (simp add: n_def)
  have N: "N = n * (2 * n)" by (simp add: N_def n_def power2_eq_square power_mult mult.commute)
  define x3 where "x3 = \<lparr>offset = off, shape = [n, n, 2], strides = [n * 2, 2, 1]\<rparr>"
  define rp where "rp i = \<lparr>offset = off + i * (2 * n), shape = [2 * n], strides = [1]\<rparr>" for i
  define row0 where "row0 i = \<lparr>offset = off + i * (2 * n), shape = [n], strides = [1]\<rparr>" for i
  define row1 where "row1 i = \<lparr>offset = off + i * (2 * n) + n, shape = [n], strides = [1]\<rparr>" for i
  define T where "T = on_buf (transpose_square x3 :: complex list \<Rightarrow> error + complex list)"
  define body where "body i = (\<lambda>st.
      bind (deinterleave (rp i) st) (\<lambda>st.
      bind (fft_inplace (row0 i) st) (\<lambda>st.
      bind (mul_twiddles (row0 i) n (2 * i) N st) (\<lambda>st.
      bind (fft_inplace (row1 i) st) (\<lambda>st.
      bind (mul_twiddles (row1 i) n (2 * i + 1) N st) (interleave (rp i)))))))" for i
  define L1 where "L1 = for_each [0..<n] body"
  define L2 where "L2 = for_each [0..<n] (\<lambda>i. fft_inplace (rp i))"
  define L3 where
    "L3 = (for_each [0..<n] (\<lambda>i. deinterleave (rp i)) :: fft_state \<Rightarrow> error + fft_state)"
  have lb: "lb_exact (int N) = Inr (2 * c + 1)"
    using lb_exact_pow2 [of "2 * c + 1"] by (simp add: N_def)
  have ss: "set_shape [n, n, 2] x = Inr x3"
    using set_shape_3d [of x N n 2] x(1,2) N by (simp add: x3_def N_def off_def)
  have rows: "set_shape [2 * n] (sub_view x3 i) = Inr (rp i)" for i
    using set_shape_row_pair [of n "off + i * (2 * n)"]
    by (simp add: sub_view_def x3_def rp_def mult.commute)
  have r0: "upto_ax 0 n (rp i) = row0 i" for i
    by (simp add: upto_ax_def rp_def row0_def)
  have r1: "from_ax 0 n (rp i) = row1 i" for i
    by (simp add: from_ax_def rp_def row1_def)
  have xN: "shape x = [N]" using x(1) by (simp add: N_def)
  have unf: "fft_inplace_oddpow x st =
      bind (T st) (\<lambda>st. bind (L1 st) (\<lambda>st. bind (T st) (\<lambda>st. bind (L2 st) (\<lambda>st. bind (T st) L3))))"
    for st
    using xN lb ss
    by (subst fft_inplace_oddpow.simps)
      (simp add: push_bit_eq_mult drop_bit_eq_div n_def [symmetric]
        mult.commute [of n 2] rows r0 r1 T_def L1_def L2_def L3_def body_def [abs_def] Let_def,
       simp add: x3_def)
  have bd: "off + n * (2 * n) \<le> len" using x(3) N by (simp add: off_def N_def)
  have rT: "realises T len l0 off (n * (2 * n)) (transposed n 2)"
    using realises_transpose [of x3 c 2 len l0] bd
    by (simp add: T_def x3_def n_def mult_ac)
  have row_bd: "off + i * (2 * n) + 2 * n \<le> len" if "i < n" for i
  proof -
    have "i * (2 * n) + 2 * n = (i + 1) * (2 * n)" by simp
    also have "\<dots> \<le> n * (2 * n)" using that by (intro mult_le_mono1) simp
    finally show ?thesis using bd by simp
  qed
  have rD: "realises (deinterleave (rp i)) len l0 (off + i * (2 * n)) (2 * n) deinterleaved"
    if "i < n" for i
    using realises_deinterleave [of "rp i" "2 * n" len l0 l] row_bd [OF that] l0
    by (simp add: rp_def n_def)
  have rI: "realises (interleave (rp i)) len l0 (off + i * (2 * n)) (2 * n) interleaved"
    if "i < n" for i
    using realises_interleave [of "rp i" "2 * n" len l0 l] row_bd [OF that] l0
    by (simp add: rp_def n_def)
  have rF0: "realises (fft_inplace (row0 i)) len l0 (off + i * (2 * n)) (2 * n) (sub_apply 0 n dft)"
    if "i < n" for i
  proof -
    have "realises (fft_inplace (row0 i)) len l0 (off + i * (2 * n) + 0) n dft"
      using fft_okD [OF ok(1), of "row0 i" len l0] row_bd [OF that] fit(1)
      by (simp add: row0_def n_def)
    then show ?thesis
      unfolding sub_apply_def [abs_def]
      by (rule realises_sub) (use row_bd [OF that] in simp_all)
  qed
  have rF1: "realises (fft_inplace (row1 i)) len l0 (off + i * (2 * n)) (2 * n) (sub_apply n n dft)"
    if "i < n" for i
  proof -
    have "realises (fft_inplace (row1 i)) len l0 (off + i * (2 * n) + n) n dft"
      using fft_okD [OF ok(1), of "row1 i" len l0] row_bd [OF that] fit(1)
      by (simp add: row1_def n_def)
    then show ?thesis
      unfolding sub_apply_def [abs_def]
      by (rule realises_sub) (use row_bd [OF that] in simp_all)
  qed
  have rM0: "realises (mul_twiddles (row0 i) n e N) len l0 (off + i * (2 * n)) (2 * n)
      (sub_apply 0 n (twiddled e N))" if "i < n" for i e
  proof -
    have "realises (mul_twiddles (row0 i) n e N) len l0 (off + i * (2 * n) + 0) n (twiddled e N)"
      using realises_mul_twiddles [of "row0 i" n len e N l0] row_bd [OF that]
      by (simp add: row0_def)
    then show ?thesis
      unfolding sub_apply_def [abs_def]
      by (rule realises_sub) (use row_bd [OF that] in simp_all)
  qed
  have rM1: "realises (mul_twiddles (row1 i) n e N) len l0 (off + i * (2 * n)) (2 * n)
      (sub_apply n n (twiddled e N))" if "i < n" for i e
  proof -
    have "realises (mul_twiddles (row1 i) n e N) len l0 (off + i * (2 * n) + n) n (twiddled e N)"
      using realises_mul_twiddles [of "row1 i" n len e N l0] row_bd [OF that]
      by (simp add: row1_def)
    then show ?thesis
      unfolding sub_apply_def [abs_def]
      by (rule realises_sub) (use row_bd [OF that] in simp_all)
  qed
  have lsa: "length (sub_apply d n F B) = 2 * n"
    if "length B = 2 * n" "d + n \<le> 2 * n" "\<And>xs. length xs = n \<Longrightarrow> length (F xs) = n"
    for d F and B :: "complex list"
    using that by (simp add: length_sub_apply)
  have rBody: "realises (body i) len l0 (off + i * (2 * n)) (2 * n) (oddpow_row i n N)"
    if "i < n" for i
  proof -
    note b = row_bd [OF that]
    have s5: "realises (\<lambda>st. bind (mul_twiddles (row1 i) n (2 * i + 1) N st) (interleave (rp i)))
        len l0 (off + i * (2 * n)) (2 * n)
        (\<lambda>B. interleaved (sub_apply n n (twiddled (2 * i + 1) N) B))"
      by (rule realises_bind [OF rM1 [OF that] rI [OF that] b]) (simp_all add: lsa)
    have s4: "realises (\<lambda>st. bind (fft_inplace (row1 i) st) (\<lambda>st.
          bind (mul_twiddles (row1 i) n (2 * i + 1) N st) (interleave (rp i))))
        len l0 (off + i * (2 * n)) (2 * n)
        (\<lambda>B. interleaved (sub_apply n n (twiddled (2 * i + 1) N) (sub_apply n n dft B)))"
      by (rule realises_bind [OF rF1 [OF that] s5 b]) (simp_all add: lsa)
    have s3: "realises (\<lambda>st. bind (mul_twiddles (row0 i) n (2 * i) N st) (\<lambda>st.
          bind (fft_inplace (row1 i) st) (\<lambda>st.
          bind (mul_twiddles (row1 i) n (2 * i + 1) N st) (interleave (rp i)))))
        len l0 (off + i * (2 * n)) (2 * n)
        (\<lambda>B. interleaved (sub_apply n n (twiddled (2 * i + 1) N) (sub_apply n n dft
            (sub_apply 0 n (twiddled (2 * i) N) B))))"
      by (rule realises_bind [OF rM0 [OF that] s4 b]) (simp_all add: lsa)
    have s2: "realises (\<lambda>st. bind (fft_inplace (row0 i) st) (\<lambda>st.
          bind (mul_twiddles (row0 i) n (2 * i) N st) (\<lambda>st.
          bind (fft_inplace (row1 i) st) (\<lambda>st.
          bind (mul_twiddles (row1 i) n (2 * i + 1) N st) (interleave (rp i))))))
        len l0 (off + i * (2 * n)) (2 * n)
        (\<lambda>B. interleaved (sub_apply n n (twiddled (2 * i + 1) N) (sub_apply n n dft
            (sub_apply 0 n (twiddled (2 * i) N) (sub_apply 0 n dft B)))))"
      by (rule realises_bind [OF rF0 [OF that] s3 b]) (simp_all add: lsa)
    show ?thesis
      unfolding body_def oddpow_row_def [abs_def]
      by (rule realises_bind [OF rD [OF that] s2 b]) (simp_all add: lsa)
  qed
  have rF: "realises (fft_inplace (rp i)) len l0 (off + i * (2 * n)) (2 * n) dft" if "i < n" for i
    using fft_okD [OF ok(2), of "rp i" len l0] row_bd [OF that] fit(2)
    by (simp add: rp_def n_def)
  have rL1: "realises L1 len l0 off (n * (2 * n)) (rows_map (2 * n) (\<lambda>i. oddpow_row i n N) n)"
    unfolding L1_def by (rule realises_rows [OF rBody]) (use bd in \<open>simp_all add: length_oddpow_row\<close>)
  have rL2: "realises L2 len l0 off (n * (2 * n)) (rows_map (2 * n) (\<lambda>_. dft) n)"
    unfolding L2_def by (rule realises_rows [OF rF]) (use bd in simp_all)
  have rL3: "realises L3 len l0 off (n * (2 * n)) (rows_map (2 * n) (\<lambda>_. deinterleaved) n)"
    unfolding L3_def by (rule realises_rows [OF rD]) (use bd in simp_all)
  have len1: "length (rows_map (2 * n) (\<lambda>i. oddpow_row i n N) n B) = n * (2 * n)"
    if "length B = n * (2 * n)" for B
    using that by (intro length_rows_map_const) (simp_all add: length_oddpow_row)
  have len2: "length (rows_map (2 * n) (\<lambda>_. dft) n B) = n * (2 * n)"
    if "length B = n * (2 * n)" for B
    using that by (intro length_rows_map_const) simp_all
  have len3: "length (rows_map (2 * n) (\<lambda>_. deinterleaved) n B) = n * (2 * n)"
    if "length B = n * (2 * n)" for B :: "complex list"
    using that by (intro length_rows_map_const) simp_all
  have lenT: "length (transposed n 2 B) = n * (2 * n)" for B :: "complex list"
    by simp
  have r6: "realises (\<lambda>st. bind (T st) L3) len l0 off (n * (2 * n))
      (\<lambda>B. rows_map (2 * n) (\<lambda>_. deinterleaved) n (transposed n 2 B))"
    by (rule realises_bind [OF rT rL3 bd]) (simp_all add: len3)
  have r5: "realises (\<lambda>st. bind (L2 st) (\<lambda>st. bind (T st) L3)) len l0 off (n * (2 * n))
      (\<lambda>B. rows_map (2 * n) (\<lambda>_. deinterleaved) n (transposed n 2
          (rows_map (2 * n) (\<lambda>_. dft) n B)))"
    by (rule realises_bind [OF rL2 r6 bd]) (simp_all add: len2 len3)
  have r4: "realises (\<lambda>st. bind (T st) (\<lambda>st. bind (L2 st) (\<lambda>st. bind (T st) L3)))
      len l0 off (n * (2 * n))
      (\<lambda>B. rows_map (2 * n) (\<lambda>_. deinterleaved) n (transposed n 2
          (rows_map (2 * n) (\<lambda>_. dft) n (transposed n 2 B))))"
    by (rule realises_bind [OF rT r5 bd]) (simp_all add: len2 len3)
  have r3: "realises (\<lambda>st. bind (L1 st) (\<lambda>st. bind (T st) (\<lambda>st. bind (L2 st) (\<lambda>st. bind (T st) L3))))
      len l0 off (n * (2 * n))
      (\<lambda>B. rows_map (2 * n) (\<lambda>_. deinterleaved) n (transposed n 2
          (rows_map (2 * n) (\<lambda>_. dft) n (transposed n 2
            (rows_map (2 * n) (\<lambda>i. oddpow_row i n N) n B)))))"
    by (rule realises_bind [OF rL1 r4 bd]) (simp_all add: len1 len2 len3)
  have r2: "realises (\<lambda>st. bind (T st) (\<lambda>st. bind (L1 st) (\<lambda>st. bind (T st)
        (\<lambda>st. bind (L2 st) (\<lambda>st. bind (T st) L3)))))
      len l0 off (n * (2 * n)) (oddpow_list n N)"
    unfolding oddpow_list_def [abs_def]
    by (rule realises_bind [OF rT r3 bd]) (simp_all add: len1 len2 len3)
  have "realises (fft_inplace_oddpow x) len l0 off (n * (2 * n)) (oddpow_list n N)"
    by (rule realises_fun_cong [OF r2]) (simp add: unf)
  then have "realises (fft_inplace_oddpow x) len l0 off (n * (2 * n)) dft"
    by (rule realises_cong) (use n0 bd N in \<open>simp_all add: oddpow_list_dft\<close>)
  then show ?thesis by (simp add: off_def N [symmetric] N_def)
qed

lemma fits_mono: "fits L l0 \<Longrightarrow> L' \<le> L \<Longrightarrow> fits L' l0"
  by (auto simp: fits_def)

lemma fft_ok_all: "fft_ok k"
proof (induction k rule: less_induct)
  case (less k)
  show ?case
    unfolding fft_ok_def
  proof (intro allI impI, elim conjE)
    fix x :: view and len l0
    assume x: "shape x = [2 ^ k]" "strides x = [1]" "offset x + 2 ^ k \<le> len"
      and fit: "fits (req k) l0"
    have cc: "c_contiguous x" using x(1,2) by (rule contiguous_1d)
    consider "k = 0" | "k = 1" | "even k" "2 \<le> k" | "odd k" "3 \<le> k"
      by (metis One_nat_def Suc_1 Suc_leI le_neq_implies_less linorder_not_less numeral_3_eq_3
          odd_one even_numeral not_less_eq_eq less_one)
    then show "realises (fft_inplace x) len l0 (offset x) (2 ^ k) dft"
    proof cases
      case 1
      show ?thesis
      proof (rule realisesI)
        fix buf :: "complex list" and s :: "complex list option"
        assume len: "length buf = len" and s: "map_option length s = l0"
        have "fft_inplace x (buf, s) = Inr (buf, s)"
          using x(1) cc 1 by (subst fft_inplace.simps) simp
        moreover have "patch buf (offset x) (dft (slice buf (offset x) (2 ^ k))) = buf"
          using x(3) len 1 by (simp add: dft_single patch_slice_same)
        ultimately show "\<exists>s'. fft_inplace x (buf, s)
              = Inr (patch buf (offset x) (dft (slice buf (offset x) (2 ^ k))), s') \<and>
            map_option length s' = l0"
          using s by simp
      qed
    next
      case 2
      show ?thesis
      proof (rule realisesI)
        fix buf :: "complex list" and s :: "complex list option"
        assume len: "length buf = len" and s: "map_option length s = l0"
        have "fft_inplace x (buf, s) = butterfly2 x (buf, s)"
          using x(1) cc 2 by (subst fft_inplace.simps) simp
        also have "\<dots> = Inr (patch buf (offset x) (dft (slice buf (offset x) 2)), s)"
          using x len 2 by (intro butterfly2_patch) simp_all
        finally show "\<exists>s'. fft_inplace x (buf, s)
              = Inr (patch buf (offset x) (dft (slice buf (offset x) (2 ^ k))), s') \<and>
            map_option length s' = l0"
          using s 2 by simp
      qed
    next
      case 3
      then obtain c where k: "k = 2 * c" by (elim evenE)
      with 3 have c: "1 \<le> c" "c < k" by simp_all
      have ne: "(2::nat) ^ k \<noteq> 1" "(2::nat) ^ k \<noteq> 2"
        using 3(2) by (simp_all add: k power_eq_if)
      have lb: "lb_exact (int (2 ^ k)) = Inr k" using lb_exact_pow2 [of k] by simp
      have "k AND 1 = 0" using 3(1) by (simp add: and_one_eq)
      then have unf: "fft_inplace x st = fft_inplace_evenpow x st" for st
        using x(1) cc ne lb by (subst fft_inplace.simps) simp
      have "req k = req c" using req_even [OF 3] by (simp add: k)
      with fit have "fits (req c) l0" by simp
      from evenpow_ok [OF less.IH [OF c(2)] c(1) x [unfolded k] this]
      show ?thesis unfolding k by (rule realises_fun_cong) (simp add: unf [unfolded k])
    next
      case 4
      then obtain c where k: "k = 2 * c + 1" by (elim oddE)
      with 4 have c: "1 \<le> c" "c < k" "c + 1 < k" by simp_all
      have ne: "(2::nat) ^ k \<noteq> 1" "(2::nat) ^ k \<noteq> 2"
        using c(1) by (simp_all add: k power_eq_if)
      have lb: "lb_exact (int (2 ^ k)) = Inr k" using lb_exact_pow2 [of k] by simp
      have "k AND 1 \<noteq> 0" using 4(1) by (simp add: and_one_eq odd_iff_mod_2_eq_one)
      then have unf: "fft_inplace x st = fft_inplace_oddpow x st" for st
        using x(1) cc ne lb by (subst fft_inplace.simps) simp
      have rk: "req k = 2 ^ c" using req_odd [OF 4] by (simp add: k)
      with fit obtain l where l: "l0 = Some l" "2 ^ c \<le> l" by (auto simp: fits_def)
      have "req c \<le> 2 ^ c"
      proof -
        have "req c \<le> 2 ^ (c div 2)" by (rule req_le)
        also have "\<dots> \<le> 2 ^ c" by (intro power_increasing) simp_all
        finally show ?thesis .
      qed
      then have f1: "fits (req c) l0" using fit rk by (intro fits_mono [OF fit]) simp
      have "req (c + 1) \<le> 2 ^ c"
      proof -
        have "req (c + 1) \<le> 2 ^ ((c + 1) div 2)" by (rule req_le)
        also have "\<dots> \<le> 2 ^ c"
        proof (intro power_increasing)
          show "(c + 1) div 2 \<le> c" using c(1) by presburger
        qed simp
        finally show ?thesis .
      qed
      then have f2: "fits (req (c + 1)) l0" using fit rk by (intro fits_mono [OF fit]) simp
      from oddpow_ok [OF less.IH [OF c(2)] less.IH [OF c(3)] c(1) x [unfolded k] l f1 f2]
      show ?thesis unfolding k by (rule realises_fun_cong) (simp add: unf [unfolded k])
    qed
  qed
qed

lemma fft_inplace_correct:
  assumes "shape x = [2 ^ k]" "strides x = [1]" "offset x + 2 ^ k \<le> length buf"
    and "req k = 0 \<or> (\<exists>sbuf. s = Some sbuf \<and> req k \<le> length sbuf)"
  shows "\<exists>s'. fft_inplace x (buf, s)
           = Inr (patch buf (offset x) (dft (slice buf (offset x) (2 ^ k))), s') \<and>
         map_option length s' = map_option length s"
proof -
  from assms(4) have "fits (req k) (map_option length s)" by (auto simp: fits_def)
  from fft_okD [OF fft_ok_all assms(1,2,3) this] show ?thesis
    unfolding realises_def by blast
qed

section \<open>The public entry point\<close>

lemma full_view_1d:
  "offset (full_view [n]) = 0" "shape (full_view [n]) = [n]" "strides (full_view [n]) = [1]"
  by (simp_all add: full_view_def c_strides_def)

lemma fft_result:
  assumes x: "x < length heap" and len: "length (heap ! x) = 2 ^ k"
  shows "\<exists>res heap'. fft junk heap x = Some (Inr res, heap') \<and>
           length heap \<le> res \<and> res < length heap' \<and> heap' ! res = dft (heap ! x) \<and>
           take (length heap) heap' = heap"
proof -
  define n :: nat where "n = 2 ^ k"
  define sc :: "nat option" where "sc = (if req k = 0 then None else Some (length heap))"
  define heap1 where
    "heap1 = (if req k = 0 then heap else heap @ [map junk [0..<req k]])"
  define res where "res = length heap1"
  define heap2 where "heap2 = heap1 @ [heap1 ! x]"
  define s where "s = map_option (nth heap2) sc"
  have lb: "lb_exact (int (length (heap ! x))) = Inr k"
    using lb_exact_pow2 [of k] by (simp add: len)
  have h1x: "heap1 ! x = heap ! x" using x by (simp add: heap1_def nth_append)
  have l1: "length heap \<le> length heap1" by (simp add: heap1_def)
  have t1: "take (length heap) heap1 = heap" by (simp add: heap1_def)
  have work: "heap2 ! res = heap ! x" by (simp add: heap2_def res_def h1x)
  have s: "req k = 0 \<or> (\<exists>sbuf. s = Some sbuf \<and> req k \<le> length sbuf)"
  proof (cases "req k = 0")
    case False
    then have "s = Some (map junk [0..<req k])"
      by (simp add: s_def sc_def heap2_def heap1_def nth_append)
    then show ?thesis by simp
  qed simp
  have "offset (full_view [n]) + 2 ^ k \<le> length (heap ! x)"
    by (simp add: full_view_1d len)
  from fft_inplace_correct [of "full_view [n]" k "heap ! x" s, OF _ _ this s]
  obtain s' where r: "fft_inplace (full_view [n]) (heap ! x, s) = Inr (dft (heap ! x), s')"
    using patch_slice_same [of 0 "2 ^ k" "dft (heap ! x)"] len
    by (auto simp: full_view_1d n_def patch_def slice_def)
  define heap' where
    "heap' = (case (sc, s') of (Some r, Some sb) \<Rightarrow> heap2[r := sb, res := dft (heap ! x)]
              | _ \<Rightarrow> heap2[res := dft (heap ! x)])"
  have eq: "fft junk heap x = Some (Inr res, heap')"
  proof (cases "req k = 0")
    case True
    then have "fft_inplace (full_view [2 ^ k]) ((heap @ [heap ! x]) ! length heap, None)
        = Inr (dft (heap ! x), s')"
      using r by (simp add: s_def sc_def n_def)
    then show ?thesis
      using lb True
      by (simp add: fft_def scrach_length_req Let_def len heap'_def sc_def heap2_def heap1_def
          res_def split: option.splits)
  next
    case False
    then have "fft_inplace (full_view [2 ^ k])
          (((heap @ [map junk [0..<req k]]) @ [(heap @ [map junk [0..<req k]]) ! x])
             ! length (heap @ [map junk [0..<req k]]),
           Some (((heap @ [map junk [0..<req k]]) @ [(heap @ [map junk [0..<req k]]) ! x])
             ! length heap))
        = Inr (dft (heap ! x), s')"
      using r x by (simp add: s_def sc_def n_def heap2_def heap1_def nth_append)
    then show ?thesis
      using lb False
      by (simp add: fft_def scrach_length_req Let_def len heap'_def sc_def heap2_def heap1_def
          res_def del: append_assoc nth_append_length split: option.splits)
  qed
  have l2: "length heap2 = Suc res" by (simp add: heap2_def res_def)
  have lh: "length heap' = Suc res"
    by (simp add: heap'_def l2 split: option.splits prod.splits)
  have scr: "r \<noteq> res \<and> length heap \<le> r" if "sc = Some r" for r
    using that by (auto simp: sc_def res_def heap1_def split: if_splits)
  have at_res: "heap' ! res = dft (heap ! x)"
    by (auto simp: heap'_def l2 split: option.splits prod.splits)
  have "take (length heap) heap' = take (length heap) heap2"
    using l1 scr by (auto simp: heap'_def res_def split: option.splits prod.splits)
  also have "\<dots> = heap" using l1 t1 by (simp add: heap2_def)
  finally have keep: "take (length heap) heap' = heap" .
  from eq l1 lh at_res keep show ?thesis by (auto simp: res_def)
qed

lemma nth_take_keep:
  "take n ys = xs \<Longrightarrow> i < length xs \<Longrightarrow> ys ! i = xs ! i"
  by (metis length_take min_less_iff_conj nth_take)

text \<open>
  Claim C1: for an input array of length \<open>N = 2 ^ k\<close>, \<open>fft\<close> returns an array of length \<open>N\<close>
  whose element \<open>j\<close> is \<open>\<Sum>n<N. x[n] * exp (- 2 * pi * \<i> * j * n / N)\<close>, in exact complex
  arithmetic.
\<close>

theorem fft_computes_dft:
  assumes "x < length heap" "length (heap ! x) = 2 ^ k"
  shows "\<exists>res heap'. fft junk heap x = Some (Inr res, heap') \<and>
           length (heap' ! res) = length (heap ! x) \<and>
           (\<forall>j<length (heap ! x). heap' ! res ! j =
              (\<Sum>n<length (heap ! x). heap ! x ! n *
                 exp (- (2 * of_real pi * \<i> * of_nat j * of_nat n / of_nat (length (heap ! x))))))"
proof -
  from fft_result [OF assms, of junk] obtain res heap' where
    r: "fft junk heap x = Some (Inr res, heap')" and d: "heap' ! res = dft (heap ! x)" by blast
  have "length (heap' ! res) = length (heap ! x)" by (simp add: d)
  moreover have "\<forall>j<length (heap ! x). heap' ! res ! j =
              (\<Sum>n<length (heap ! x). heap ! x ! n *
                 exp (- (2 * of_real pi * \<i> * of_nat j * of_nat n / of_nat (length (heap ! x)))))"
    by (simp add: d dft_def)
  ultimately show ?thesis using r by blast
qed

text \<open>
  Claim C3: for an input of length \<open>2 ^ k\<close>, \<open>fft\<close> returns a result and raises nothing; the
  scratch length it computes is \<open>req k\<close>, the largest half-length any \<open>_interleave\<close> or
  \<open>_deinterleave\<close> call of the recursion asks for; and with a scratch array of at least that
  length (or with no scratch array when that length is \<open>0\<close>) the in-place core runs through
  without a failed assertion, index, reshape or length check.
\<close>

theorem fft_no_internal_failure:
  assumes "x < length heap" "length (heap ! x) = 2 ^ k"
  shows "(\<exists>res heap'. fft junk heap x = Some (Inr res, heap')) \<and>
         scrach_length k = Some (req k) \<and>
         (\<forall>buf s. length buf = 2 ^ k \<and>
              (req k = 0 \<or> (\<exists>sbuf. s = Some sbuf \<and> req k \<le> length sbuf)) \<longrightarrow>
              (\<exists>st'. fft_inplace (full_view [2 ^ k]) (buf, s) = Inr st'))"
proof (intro conjI allI impI)
  from fft_result [OF assms, of junk]
  show "\<exists>res heap'. fft junk heap x = Some (Inr res, heap')" by blast
  show "scrach_length k = Some (req k)" by (rule scrach_length_req)
next
  fix buf :: "complex list" and s :: "complex list option"
  assume "length buf = 2 ^ k \<and> (req k = 0 \<or> (\<exists>sbuf. s = Some sbuf \<and> req k \<le> length sbuf))"
  then have b: "offset (full_view [2 ^ k]) + 2 ^ k \<le> length buf"
    and s: "req k = 0 \<or> (\<exists>sbuf. s = Some sbuf \<and> req k \<le> length sbuf)"
    by (simp_all add: full_view_1d)
  from fft_inplace_correct [of "full_view [2 ^ k]" k buf s] b s
  show "\<exists>st'. fft_inplace (full_view [2 ^ k]) (buf, s) = Inr st'"
    by (auto simp: full_view_1d)
qed

text \<open>
  Claim C5: for an input of length \<open>2 ^ k\<close>, \<open>fft\<close> returns a reference to a newly allocated
  array, different from the input, and every array that existed before the call, the input
  among them, holds what it held before.
\<close>

theorem fft_keeps_input:
  assumes "x < length heap" "length (heap ! x) = 2 ^ k"
  shows "\<exists>res heap'. fft junk heap x = Some (Inr res, heap') \<and>
           res \<noteq> x \<and> length heap \<le> res \<and> heap' ! x = heap ! x \<and>
           take (length heap) heap' = heap"
proof -
  from fft_result [OF assms, of junk] obtain res heap' where
    r: "fft junk heap x = Some (Inr res, heap')" and f: "length heap \<le> res"
    and k: "take (length heap) heap' = heap" by blast
  from k assms(1) have "heap' ! x = heap ! x" by (rule nth_take_keep)
  moreover from f assms(1) have "res \<noteq> x" by simp
  ultimately show ?thesis using r f k by blast
qed

lemma fft_example_pair:
  "fft (\<lambda>_. 0) [[1, 1]] 0 = Some (Inr 1, [[1, 1], [2, 0]])"
proof -
  have lb: "lb_exact 2 = Inr 1" using lb_exact_pow2 [of 1] by simp
  have sl: "scrach_length 1 = Some 0" by code_simp
  have fi: "fft_inplace (full_view [2]) ([1, 1], None) = Inr ([2, 0], None)"
    by (subst fft_inplace.simps)
      (simp add: full_view_def c_strides_def c_contiguous_def butterfly2_def getitem_def
        setitem_def)
  show ?thesis using lb sl fi [unfolded numeral_2_eq_2] by (simp add: fft_def Let_def)
qed

theorem fft_computes_dft_witness:
  "0 < length [[1, 1 :: complex]] \<and> length ([[1, 1 :: complex]] ! 0) = 2 ^ 1 \<and>
   fft (\<lambda>_. 0) [[1, 1]] 0 = Some (Inr 1, [[1, 1], [2, 0]]) \<and>
   [2, 0 :: complex] ! 0 =
      (\<Sum>n<length ([[1, 1 :: complex]] ! 0). [[1, 1]] ! 0 ! n *
         exp (- (2 * of_real pi * \<i> * of_nat 0 * of_nat n
                 / of_nat (length ([[1, 1 :: complex]] ! 0))))) \<and>
   [2, 0 :: complex] ! 1 =
      (\<Sum>n<length ([[1, 1 :: complex]] ! 0). [[1, 1]] ! 0 ! n *
         exp (- (2 * of_real pi * \<i> * of_nat 1 * of_nat n
                 / of_nat (length ([[1, 1 :: complex]] ! 0)))))"
proof -
  have h1: "0 < length [[1, 1 :: complex]]" by simp
  have h2: "length ([[1, 1 :: complex]] ! 0) = 2 ^ 1" by simp
  from fft_computes_dft [OF h1 h2, of "\<lambda>_. 0"] obtain res heap' where
    r: "fft (\<lambda>_. 0) [[1, 1 :: complex]] 0 = Some (Inr res, heap')"
    and d: "\<forall>j<length ([[1, 1 :: complex]] ! 0). heap' ! res ! j =
      (\<Sum>n<length ([[1, 1 :: complex]] ! 0). [[1, 1]] ! 0 ! n *
         exp (- (2 * of_real pi * \<i> * of_nat j * of_nat n
                 / of_nat (length ([[1, 1 :: complex]] ! 0)))))"
    by blast
  from r fft_example_pair have e: "res = 1" "heap' = [[1, 1], [2, 0]]" by simp_all
  have l: "(0::nat) < length ([[1, 1 :: complex]] ! 0)" "(1::nat) < length ([[1, 1 :: complex]] ! 0)"
    by simp_all
  from d l(1) have d0: "heap' ! res ! 0 =
      (\<Sum>n<length ([[1, 1 :: complex]] ! 0). [[1, 1]] ! 0 ! n *
         exp (- (2 * of_real pi * \<i> * of_nat 0 * of_nat n
                 / of_nat (length ([[1, 1 :: complex]] ! 0)))))" by blast
  from d l(2) have d1: "heap' ! res ! 1 =
      (\<Sum>n<length ([[1, 1 :: complex]] ! 0). [[1, 1]] ! 0 ! n *
         exp (- (2 * of_real pi * \<i> * of_nat 1 * of_nat n
                 / of_nat (length ([[1, 1 :: complex]] ! 0)))))" by blast
  have g0: "[2, 0 :: complex] ! 0 = heap' ! res ! 0" by (simp add: e)
  have g1: "[2, 0 :: complex] ! 1 = heap' ! res ! 1" by (simp add: e)
  show ?thesis
    apply (intro conjI)
        apply (rule h1)
       apply (rule h2)
      apply (rule fft_example_pair)
     apply (rule trans [OF g0 d0])
    apply (rule trans [OF g1 d1])
    done
qed

theorem fft_no_internal_failure_witness:
  "0 < length [[1, 2, 3, 4, 5, 6, 7, 8 :: complex]] \<and>
   length ([[1, 2, 3, 4, 5, 6, 7, 8 :: complex]] ! 0) = 2 ^ 3 \<and>
   (\<exists>res heap'. fft (\<lambda>_. 0) [[1, 2, 3, 4, 5, 6, 7, 8]] 0 = Some (Inr res, heap')) \<and>
   scrach_length 3 = Some 2 \<and>
   (\<exists>st'. fft_inplace (full_view [2 ^ 3]) ([1, 2, 3, 4, 5, 6, 7, 8], Some [0, 0]) = Inr st')"
proof -
  have h1: "0 < length [[1, 2, 3, 4, 5, 6, 7, 8 :: complex]]" by simp
  have h2: "length ([[1, 2, 3, 4, 5, 6, 7, 8 :: complex]] ! 0) = 2 ^ 3" by simp
  have r: "req 3 = 2" by code_simp
  note t = fft_no_internal_failure [OF h1 h2, of "\<lambda>_. 0"]
  from t have a: "\<exists>res heap'. fft (\<lambda>_. 0) [[1, 2, 3, 4, 5, 6, 7, 8]] 0 = Some (Inr res, heap')"
    by blast
  from t have b: "scrach_length 3 = Some 2" by (simp add: r)
  from t have "length [1, 2, 3, 4, 5, 6, 7, 8 :: complex] = 2 ^ 3 \<and>
      (req 3 = 0 \<or> (\<exists>sbuf. Some [0, 0 :: complex] = Some sbuf \<and> req 3 \<le> length sbuf)) \<longrightarrow>
      (\<exists>st'. fft_inplace (full_view [2 ^ 3]) ([1, 2, 3, 4, 5, 6, 7, 8], Some [0, 0]) = Inr st')"
    by blast
  then have c: "\<exists>st'. fft_inplace (full_view [2 ^ 3]) ([1, 2, 3, 4, 5, 6, 7, 8], Some [0, 0]) = Inr st'"
    by (simp add: r)
  from h1 h2 a b c show ?thesis by blast
qed

theorem fft_keeps_input_witness:
  "0 < length [[1, 1 :: complex]] \<and> length ([[1, 1 :: complex]] ! 0) = 2 ^ 1 \<and>
   fft (\<lambda>_. 0) [[1, 1]] 0 = Some (Inr 1, [[1, 1], [2, 0]]) \<and>
   (1 :: nat) \<noteq> 0 \<and> length [[1, 1 :: complex]] \<le> 1 \<and>
   [[1, 1], [2, 0 :: complex]] ! 0 = [[1, 1]] ! 0 \<and>
   take (length [[1, 1 :: complex]]) [[1, 1], [2, 0 :: complex]] = [[1, 1]]"
proof -
  have h1: "0 < length [[1, 1 :: complex]]" by simp
  have h2: "length ([[1, 1 :: complex]] ! 0) = 2 ^ 1" by simp
  from fft_keeps_input [OF h1 h2, of "\<lambda>_. 0"] fft_example_pair h1 h2
  show ?thesis by auto
qed

end
